theory Spec2Isabelle
  imports Main "HOL-Library.Word"
begin

section \<open>gonk and affine: Smith-Waterman score matrices and their diagonal sums\<close>

text \<open>
  The repository holds two Go programs. \<^verbatim>\<open>gonk\<close> fills one score matrix with a
  constant gap penalty; \<^verbatim>\<open>affine\<close> fills three coupled matrices with a gap-open
  and a gap-extend penalty. Both then sum the matrix along its upper diagonals.
  Functions that exist in both programs under one name carry the suffix
  \<open>_const\<close> (gonk) or \<open>_affine\<close> here; \<open>makeMatrix\<close> and \<open>sums\<close> are
  the same text in both files and are modelled once.
\<close>

subsection \<open>Values, errors and checked indexing\<close>

text \<open>
  Go's \<^verbatim>\<open>int\<close> is a 64-bit two's complement integer on the platforms the
  programs are built for: \<open>+\<close> and \<open>-\<close> wrap around, comparisons are signed
  (\<open><s\<close>). A \<^verbatim>\<open>[][]int\<close> is a list of rows. Loop counters and lengths are never
  negative and never overflow, so they are natural numbers.
\<close>

type_synonym goint = "64 word"
type_synonym matrix = "goint list list"

text \<open>
  The ways a run stops early: a slice or string index out of range (a runtime panic),
  \<^verbatim>\<open>check\<close> panicking on the error of \<^verbatim>\<open>os.Open\<close> or of \<^verbatim>\<open>os.Create\<close>, and
  \<^verbatim>\<open>log.Fatal\<close> when a sequence flag is empty.
\<close>

datatype error = IndexOutOfRange | OpenFailed | CreateFailed | MissingSequences

definition ebind :: "error + 'a \<Rightarrow> ('a \<Rightarrow> error + 'b) \<Rightarrow> error + 'b" where
  "ebind r f = (case r of Inl e \<Rightarrow> Inl e | Inr x \<Rightarrow> f x)"

definition at :: "'a list \<Rightarrow> nat \<Rightarrow> error + 'a" where
  "at xs i = (if i < length xs then Inr (xs ! i) else Inl IndexOutOfRange)"

definition get2 :: "matrix \<Rightarrow> nat \<Rightarrow> nat \<Rightarrow> error + goint" where
  "get2 m i j = ebind (at m i) (\<lambda>row. at row j)"

definition set2 :: "matrix \<Rightarrow> nat \<Rightarrow> nat \<Rightarrow> goint \<Rightarrow> error + matrix" where
  "set2 m i j v =
     (if i < length m \<and> j < length (m ! i) then Inr (m[i := (m ! i)[j := v]])
      else Inl IndexOutOfRange)"

text \<open>A lookup in a Go \<^verbatim>\<open>map[int]int\<close> gives 0 for a key that is absent.\<close>

definition lookup0 :: "(nat \<rightharpoonup> nat) \<Rightarrow> nat \<Rightarrow> nat" where
  "lookup0 m k = (case m k of None \<Rightarrow> 0 | Some v \<Rightarrow> v)"

subsection \<open>makeMatrix\<close>

text \<open>\<^verbatim>\<open>makeMatrix(n, m)\<close>: \<open>n + 1\<close> rows, each a fresh slice of \<open>m + 1\<close> zeros.\<close>

definition makeMatrix :: "nat \<Rightarrow> nat \<Rightarrow> matrix" where
  "makeMatrix n m = map (\<lambda>i. replicate (m + 1) 0) [0..<n + 1]"

subsection \<open>The constant-penalty builder (gonk)\<close>

text \<open>
  \<^verbatim>\<open>maxScore\<close> of gonk takes a \<^verbatim>\<open>[4]int\<close>, here a list; \<^verbatim>\<open>max\<close> starts at 0
  and is replaced by every score greater than it.
\<close>

definition maxScore_const :: "goint list \<Rightarrow> goint" where
  "maxScore_const scores = fold (\<lambda>score mx. if mx <s score then score else mx) scores 0"

definition baseInt_const :: "nat \<rightharpoonup> nat" where
  "baseInt_const =
     [of_char CHR ''A'' \<mapsto> 0, of_char CHR ''C'' \<mapsto> 1, of_char CHR ''G'' \<mapsto> 2,
      of_char CHR ''T'' \<mapsto> 3, of_char CHR ''N'' \<mapsto> 4]"

definition scores_const :: "goint list list" where
  "scores_const =
     [[5, -4, -4, -4, 0],
      [-4, 5, -4, -4, 0],
      [-4, -4, 5, -4, 0],
      [-4, -4, -4, 5, 0],
      [0, 0, 0, 0, 0]]"

text \<open>
  The body of the inner loop at cell \<open>(i, j)\<close>. The flags \<^verbatim>\<open>*diag\<close> and
  \<^verbatim>\<open>*penalty\<close> are globals of the program and parameters here. The array
  \<^verbatim>\<open>potential\<close> has four entries of which the code fills three; the fourth stays 0.
\<close>

definition cell_const :: "bool \<Rightarrow> goint \<Rightarrow> string \<Rightarrow> string \<Rightarrow> nat \<Rightarrow> nat \<Rightarrow> matrix \<Rightarrow> error + matrix" where
  "cell_const diag penalty seqA seqB i j matches =
     (if i = j \<and> diag then set2 matches i j 0
      else
        ebind (at seqA (i - 1)) (\<lambda>a.
        ebind (at seqB (j - 1)) (\<lambda>b.
        let indA = of_char a; indB = of_char b;
            score = scores_const ! lookup0 baseInt_const indA ! lookup0 baseInt_const indB
        in
        ebind (get2 matches (i - 1) (j - 1)) (\<lambda>back.
        ebind (get2 matches (i - 1) j) (\<lambda>left.
        ebind (get2 matches i (j - 1)) (\<lambda>above.
        set2 matches i j
          (maxScore_const [back + score, left - penalty, above - penalty, 0])))))))"

lemma set2_length: "set2 m i j v = Inr m' \<Longrightarrow> length m' = length m \<and> map length m' = map length m"
  by (auto simp: set2_def map_update list_update_same_conv split: if_splits)

lemma cell_const_length:
  "cell_const diag penalty seqA seqB i j m = Inr m' \<Longrightarrow> length m' = length m \<and> map length m' = map length m"
  by (auto simp: cell_const_def ebind_def Let_def dest: set2_length split: if_splits sum.splits)

text \<open>
  The inner loop \<^verbatim>\<open>for j := ...; j < len(matches[0]); j++\<close>, entered at \<open>j\<close>. The
  bound is read from row 0 at every test, as in the source.
\<close>

function row_const :: "bool \<Rightarrow> goint \<Rightarrow> string \<Rightarrow> string \<Rightarrow> nat \<Rightarrow> nat \<Rightarrow> matrix \<Rightarrow> error + matrix" where
  "row_const diag penalty seqA seqB i j matches =
     (case at matches 0 of
        Inl e \<Rightarrow> Inl e
      | Inr row0 \<Rightarrow>
          if j < length row0 then
            (case cell_const diag penalty seqA seqB i j matches of
               Inl e \<Rightarrow> Inl e
             | Inr matches' \<Rightarrow> row_const diag penalty seqA seqB i (j + 1) matches')
          else Inr matches)"
  by pat_completeness auto
termination
proof (relation "measure (\<lambda>(diag, penalty, seqA, seqB, i, j, matches). length (matches ! 0) - j)")
  show "wf (measure (\<lambda>(diag, penalty, seqA, seqB, i, j, matches). length (matches ! 0) - j))"
    by simp
next
  fix diag :: bool and penalty :: goint and seqA seqB :: string and i j :: nat
    and matches matches' :: matrix and row0 :: "goint list"
  assume r: "at matches 0 = Inr row0" and lt: "j < length row0"
    and c: "cell_const diag penalty seqA seqB i j matches = Inr matches'"
  from r have m0: "matches \<noteq> []" "row0 = matches ! 0"
    by (auto simp: at_def split: if_splits)
  from cell_const_length [OF c] have "length matches' = length matches"
    and "map length matches' ! 0 = map length matches ! 0" by simp_all
  with m0 have "length (matches' ! 0) = length (matches ! 0)"
    by (cases matches; cases matches') auto
  with lt m0 show "((diag, penalty, seqA, seqB, i, j + 1, matches'), (diag, penalty, seqA, seqB, i, j, matches))
      \<in> measure (\<lambda>(diag, penalty, seqA, seqB, i, j, matches). length (matches ! 0) - j)"
    by simp
qed

declare row_const.simps [simp del]

lemma row_const_length:
  "row_const diag penalty seqA seqB i j m = Inr m' \<Longrightarrow> map length m' = map length m"
proof (induction diag penalty seqA seqB i j m rule: row_const.induct)
  case (1 diag penalty seqA seqB i j matches)
  note unfold = row_const.simps [of diag penalty seqA seqB i j matches]
  show ?case
  proof (cases "at matches 0")
    case (Inl e)
    with "1.prems" show ?thesis by (simp add: unfold)
  next
    case (Inr row0)
    show ?thesis
    proof (cases "j < length row0")
      case False
      with Inr "1.prems" show ?thesis by (simp add: unfold)
    next
      case True
      show ?thesis
      proof (cases "cell_const diag penalty seqA seqB i j matches")
        case (Inl e)
        with Inr True "1.prems" show ?thesis by (simp add: unfold)
      next
        case c: (Inr matches')
        with Inr True "1.prems"
        have "row_const diag penalty seqA seqB i (j + 1) matches' = Inr m'" by (simp add: unfold)
        from "1.IH" [OF Inr True c this] cell_const_length [OF c] show ?thesis by simp
      qed
    qed
  qed
qed

text \<open>The outer loop \<^verbatim>\<open>for i := ...; i < len(matches); i++\<close>, entered at \<open>i\<close>.\<close>

function rows_const :: "bool \<Rightarrow> goint \<Rightarrow> string \<Rightarrow> string \<Rightarrow> nat \<Rightarrow> matrix \<Rightarrow> error + matrix" where
  "rows_const diag penalty seqA seqB i matches =
     (if i < length matches then
        (case row_const diag penalty seqA seqB i 1 matches of
           Inl e \<Rightarrow> Inl e
         | Inr matches' \<Rightarrow> rows_const diag penalty seqA seqB (i + 1) matches')
      else Inr matches)"
  by pat_completeness auto
termination
proof (relation "measure (\<lambda>(diag, penalty, seqA, seqB, i, matches). length matches - i)")
  show "wf (measure (\<lambda>(diag, penalty, seqA, seqB, i, matches). length matches - i))"
    by simp
next
  fix diag :: bool and penalty :: goint and seqA seqB :: string and i :: nat
    and matches matches' :: matrix
  assume lt: "i < length matches"
    and r: "row_const diag penalty seqA seqB i 1 matches = Inr matches'"
  from row_const_length [OF r] have "length (map length matches') = length (map length matches)"
    by simp
  then have "length matches' = length matches" by simp
  with lt show "((diag, penalty, seqA, seqB, i + 1, matches'), (diag, penalty, seqA, seqB, i, matches))
      \<in> measure (\<lambda>(diag, penalty, seqA, seqB, i, matches). length matches - i)"
    by simp
qed

declare rows_const.simps [simp del]

definition populate_const :: "bool \<Rightarrow> goint \<Rightarrow> matrix \<Rightarrow> string \<Rightarrow> string \<Rightarrow> error + matrix" where
  "populate_const diag penalty matches seqA seqB = rows_const diag penalty seqA seqB 1 matches"

subsection \<open>The affine-gap builder (affine)\<close>

text \<open>
  \<^verbatim>\<open>maxScore\<close> of affine takes a \<^verbatim>\<open>[3]int\<close>; the loop is the same as gonk's.
\<close>

definition maxScore_affine :: "goint list \<Rightarrow> goint" where
  "maxScore_affine scores = fold (\<lambda>score mx. if mx <s score then score else mx) scores 0"

definition baseInt_affine :: "nat \<rightharpoonup> nat" where
  "baseInt_affine = [65 \<mapsto> 0, 67 \<mapsto> 1, 71 \<mapsto> 2, 84 \<mapsto> 3]"

definition scores_affine :: "goint list list" where
  "scores_affine =
     [[5, -4, -4, -4],
      [-4, 5, -4, -4],
      [-4, -4, 5, -4],
      [-4, -4, -4, 5]]"

text \<open>
  The three matrices \<^verbatim>\<open>matches\<close>, \<^verbatim>\<open>gapA\<close>, \<^verbatim>\<open>gapB\<close>. \<^verbatim>\<open>main\<close> makes them with
  three calls of \<^verbatim>\<open>makeMatrix\<close>, so no two of them share a row, and the state is a
  triple of separate values. The array \<^verbatim>\<open>matrices\<close> of the source holds the same three
  slices: writing \<^verbatim>\<open>matrix[i][j]\<close> in the loop over \<open>k\<close> writes the \<open>k\<close>-th of them.
\<close>

type_synonym matrices = "matrix \<times> matrix \<times> matrix"

text \<open>The array \<^verbatim>\<open>potential\<close> for the \<open>k\<close>-th matrix; \<^verbatim>\<open>*open\<close> and \<^verbatim>\<open>*ext\<close> are parameters.\<close>

definition potential_affine :: "goint \<Rightarrow> goint \<Rightarrow> goint \<Rightarrow> nat \<Rightarrow> nat \<Rightarrow> nat \<Rightarrow> matrices \<Rightarrow> error + goint list" where
  "potential_affine gopen ext score k i j ms =
     (case ms of (matches, gapA, gapB) \<Rightarrow>
        if k = 0 then
          ebind (get2 matches (i - 1) (j - 1)) (\<lambda>x0.
          ebind (get2 gapA (i - 1) (j - 1)) (\<lambda>x1.
          ebind (get2 gapB (i - 1) (j - 1)) (\<lambda>x2.
          Inr [x0 + score, x1 + score, x2 + score])))
        else if k = 1 then
          ebind (get2 matches i (j - 1)) (\<lambda>x0.
          ebind (get2 gapA i (j - 1)) (\<lambda>x1.
          ebind (get2 gapB i (j - 1)) (\<lambda>x2.
          Inr [- gopen - ext + x0, - ext + x1, - gopen - ext + x2])))
        else if k = 2 then
          ebind (get2 matches (i - 1) j) (\<lambda>x0.
          ebind (get2 gapA (i - 1) j) (\<lambda>x1.
          ebind (get2 gapB (i - 1) j) (\<lambda>x2.
          Inr [- gopen - ext + x0, - gopen - ext + x1, - ext + x2])))
        else Inr [0, 0, 0])"

text \<open>\<^verbatim>\<open>matrix[i][j] = maxes[k]\<close>, with \<^verbatim>\<open>matrix\<close> the \<open>k\<close>-th of the three.\<close>

definition store_affine :: "nat \<Rightarrow> nat \<Rightarrow> nat \<Rightarrow> goint \<Rightarrow> matrices \<Rightarrow> error + matrices" where
  "store_affine k i j v ms =
     (case ms of (matches, gapA, gapB) \<Rightarrow>
        if k = 0 then ebind (set2 matches i j v) (\<lambda>matches'. Inr (matches', gapA, gapB))
        else if k = 1 then ebind (set2 gapA i j v) (\<lambda>gapA'. Inr (matches, gapA', gapB))
        else ebind (set2 gapB i j v) (\<lambda>gapB'. Inr (matches, gapA, gapB')))"

text \<open>The loop \<^verbatim>\<open>for k, matrix := range matrices\<close> over the remaining indices \<open>ks\<close>.\<close>

fun kloop_affine :: "goint \<Rightarrow> goint \<Rightarrow> goint \<Rightarrow> nat \<Rightarrow> nat \<Rightarrow> nat list \<Rightarrow> goint list \<times> matrices \<Rightarrow> error + goint list \<times> matrices" where
  "kloop_affine gopen ext score i j [] st = Inr st"
| "kloop_affine gopen ext score i j (k # ks) st =
     (case st of (maxes, ms) \<Rightarrow>
        ebind (potential_affine gopen ext score k i j ms) (\<lambda>potential.
        let mx = maxScore_affine potential in
        ebind (store_affine k i j mx ms) (\<lambda>ms'.
        kloop_affine gopen ext score i j ks (maxes[k := mx], ms'))))"

definition cell_affine :: "bool \<Rightarrow> goint \<Rightarrow> goint \<Rightarrow> string \<Rightarrow> string \<Rightarrow> nat \<Rightarrow> nat \<Rightarrow> matrices \<Rightarrow> error + matrices" where
  "cell_affine diag gopen ext seqA seqB i j ms =
     (case ms of (matches, gapA, gapB) \<Rightarrow>
        if i = j \<and> diag then ebind (set2 matches i j 0) (\<lambda>matches'. Inr (matches', gapA, gapB))
        else
          ebind (at seqA (i - 1)) (\<lambda>a.
          ebind (at seqB (j - 1)) (\<lambda>b.
          let indA = of_char a; indB = of_char b;
              score = scores_affine ! lookup0 baseInt_affine indA ! lookup0 baseInt_affine indB
          in
          ebind (kloop_affine gopen ext score i j [0, 1, 2] ([0, 0, 0], ms)) (\<lambda>(maxes, ms').
          case ms' of (matches', gapA', gapB') \<Rightarrow>
            let toAdd = maxScore_affine maxes in
            ebind (set2 matches' i j toAdd) (\<lambda>matches''. Inr (matches'', gapA', gapB'))))))"

lemma store_affine_length:
  "store_affine k i j v ms = Inr ms' \<Longrightarrow> map length (fst ms') = map length (fst ms)"
  by (auto simp: store_affine_def ebind_def dest: set2_length split: prod.splits if_splits sum.splits)

lemma kloop_affine_length:
  "kloop_affine gopen ext score i j ks st = Inr st' \<Longrightarrow>
   map length (fst (snd st')) = map length (fst (snd st))"
proof (induction ks arbitrary: st)
  case Nil
  then show ?case by simp
next
  case (Cons k ks)
  obtain maxes ms where st: "st = (maxes, ms)" by (cases st)
  from Cons.prems st obtain potential ms1 where
    s: "store_affine k i j (maxScore_affine potential) ms = Inr ms1" and
    r: "kloop_affine gopen ext score i j ks (maxes[k := maxScore_affine potential], ms1) = Inr st'"
    by (auto simp: ebind_def Let_def split: sum.splits)
  from Cons.IH [OF r] store_affine_length [OF s] st show ?case by simp
qed

lemma cell_affine_length:
  assumes "cell_affine diag gopen ext seqA seqB i j ms = Inr ms'"
  shows "map length (fst ms') = map length (fst ms)"
proof -
  obtain matches gapA gapB where ms: "ms = (matches, gapA, gapB)" by (cases ms)
  show ?thesis
  proof (cases "i = j \<and> diag")
    case True
    with assms ms show ?thesis
      by (auto simp: cell_affine_def ebind_def dest: set2_length split: sum.splits)
  next
    case False
    with assms ms obtain score maxes matches' gapA' gapB' matches'' where
      k: "kloop_affine gopen ext score i j [0, 1, 2] ([0, 0, 0], ms) = Inr (maxes, matches', gapA', gapB')"
      and s: "set2 matches' i j (maxScore_affine maxes) = Inr matches''"
      and r: "ms' = (matches'', gapA', gapB')"
      by (auto simp: cell_affine_def ebind_def Let_def simp del: kloop_affine.simps
            split: sum.splits prod.splits)
    from kloop_affine_length [OF k] set2_length [OF s] r ms show ?thesis by simp
  qed
qed

function row_affine :: "bool \<Rightarrow> goint \<Rightarrow> goint \<Rightarrow> string \<Rightarrow> string \<Rightarrow> nat \<Rightarrow> nat \<Rightarrow> matrices \<Rightarrow> error + matrices" where
  "row_affine diag gopen ext seqA seqB i j ms =
     (case at (fst ms) 0 of
        Inl e \<Rightarrow> Inl e
      | Inr row0 \<Rightarrow>
          if j < length row0 then
            (case cell_affine diag gopen ext seqA seqB i j ms of
               Inl e \<Rightarrow> Inl e
             | Inr ms' \<Rightarrow> row_affine diag gopen ext seqA seqB i (j + 1) ms')
          else Inr ms)"
  by pat_completeness auto
termination
proof (relation "measure (\<lambda>(diag, gopen, ext, seqA, seqB, i, j, ms). length (fst ms ! 0) - j)")
  show "wf (measure (\<lambda>(diag, gopen, ext, seqA, seqB, i, j, ms). length (fst ms ! 0) - j))"
    by simp
next
  fix diag :: bool and gopen ext :: goint and seqA seqB :: string and i j :: nat
    and ms ms' :: matrices and row0 :: "goint list"
  assume r: "at (fst ms) 0 = Inr row0" and lt: "j < length row0"
    and c: "cell_affine diag gopen ext seqA seqB i j ms = Inr ms'"
  from r have m0: "fst ms \<noteq> []" "row0 = fst ms ! 0"
    by (auto simp: at_def split: if_splits)
  from cell_affine_length [OF c] have e: "map length (fst ms') = map length (fst ms)" .
  then have "length (map length (fst ms')) = length (map length (fst ms))" by simp
  then have "length (fst ms') = length (fst ms)" by simp
  moreover from e have "map length (fst ms') ! 0 = map length (fst ms) ! 0" by simp
  ultimately have "length (fst ms' ! 0) = length (fst ms ! 0)"
    using m0 by (cases "fst ms"; cases "fst ms'") auto
  with lt m0 show "((diag, gopen, ext, seqA, seqB, i, j + 1, ms'), (diag, gopen, ext, seqA, seqB, i, j, ms))
      \<in> measure (\<lambda>(diag, gopen, ext, seqA, seqB, i, j, ms). length (fst ms ! 0) - j)"
    by simp
qed

declare row_affine.simps [simp del]

lemma row_affine_length:
  "row_affine diag gopen ext seqA seqB i j ms = Inr ms' \<Longrightarrow>
   map length (fst ms') = map length (fst ms)"
proof (induction diag gopen ext seqA seqB i j ms rule: row_affine.induct)
  case (1 diag gopen ext seqA seqB i j ms)
  note unfold = row_affine.simps [of diag gopen ext seqA seqB i j ms]
  show ?case
  proof (cases "at (fst ms) 0")
    case (Inl e)
    with "1.prems" show ?thesis by (simp add: unfold)
  next
    case (Inr row0)
    show ?thesis
    proof (cases "j < length row0")
      case False
      with Inr "1.prems" show ?thesis by (simp add: unfold)
    next
      case True
      show ?thesis
      proof (cases "cell_affine diag gopen ext seqA seqB i j ms")
        case (Inl e)
        with Inr True "1.prems" show ?thesis by (simp add: unfold)
      next
        case c: (Inr ms1)
        with Inr True "1.prems"
        have "row_affine diag gopen ext seqA seqB i (j + 1) ms1 = Inr ms'" by (simp add: unfold)
        from "1.IH" [OF Inr True c this] cell_affine_length [OF c] show ?thesis by simp
      qed
    qed
  qed
qed

function rows_affine :: "bool \<Rightarrow> goint \<Rightarrow> goint \<Rightarrow> string \<Rightarrow> string \<Rightarrow> nat \<Rightarrow> matrices \<Rightarrow> error + matrices" where
  "rows_affine diag gopen ext seqA seqB i ms =
     (if i < length (fst ms) then
        (case row_affine diag gopen ext seqA seqB i 1 ms of
           Inl e \<Rightarrow> Inl e
         | Inr ms' \<Rightarrow> rows_affine diag gopen ext seqA seqB (i + 1) ms')
      else Inr ms)"
  by pat_completeness auto
termination
proof (relation "measure (\<lambda>(diag, gopen, ext, seqA, seqB, i, ms). length (fst ms) - i)")
  show "wf (measure (\<lambda>(diag, gopen, ext, seqA, seqB, i, ms). length (fst ms) - i))"
    by simp
next
  fix diag :: bool and gopen ext :: goint and seqA seqB :: string and i :: nat
    and ms ms' :: matrices
  assume lt: "i < length (fst ms)"
    and r: "row_affine diag gopen ext seqA seqB i 1 ms = Inr ms'"
  from row_affine_length [OF r]
  have "length (map length (fst ms')) = length (map length (fst ms))" by simp
  then have "length (fst ms') = length (fst ms)" by simp
  with lt show "((diag, gopen, ext, seqA, seqB, i + 1, ms'), (diag, gopen, ext, seqA, seqB, i, ms))
      \<in> measure (\<lambda>(diag, gopen, ext, seqA, seqB, i, ms). length (fst ms) - i)"
    by simp
qed

declare rows_affine.simps [simp del]

text \<open>
  \<^verbatim>\<open>populate\<close> of affine. The Go function returns \<^verbatim>\<open>matches\<close>; \<^verbatim>\<open>gapA\<close> and \<^verbatim>\<open>gapB\<close>
  are the caller's slices and are written in place, so the model returns all three.
\<close>

definition populate_affine :: "bool \<Rightarrow> goint \<Rightarrow> goint \<Rightarrow> matrix \<Rightarrow> matrix \<Rightarrow> matrix \<Rightarrow> string \<Rightarrow> string \<Rightarrow> error + matrices" where
  "populate_affine diag gopen ext matches gapA gapB seqA seqB =
     rows_affine diag gopen ext seqA seqB 1 (matches, gapA, gapB)"

subsection \<open>sums: the diagonal profile\<close>

text \<open>
  \<^verbatim>\<open>sums\<close> is the same text in both programs. The slice \<^verbatim>\<open>sums\<close> of the source is the
  accumulator \<open>acc\<close> here. The inner loop, entered at \<open>j\<close>, runs
  \<^verbatim>\<open>sums[j-i] += matches[i][j]\<close> up to \<^verbatim>\<open>len(matches[0])\<close>.
\<close>

function sums_row :: "nat \<Rightarrow> nat \<Rightarrow> matrix \<Rightarrow> goint list \<Rightarrow> error + goint list" where
  "sums_row i j matches acc =
     (case at matches 0 of
        Inl e \<Rightarrow> Inl e
      | Inr row0 \<Rightarrow>
          if j < length row0 then
            (case at acc (j - i) of
               Inl e \<Rightarrow> Inl e
             | Inr old \<Rightarrow>
                 (case get2 matches i j of
                    Inl e \<Rightarrow> Inl e
                  | Inr v \<Rightarrow> sums_row i (j + 1) matches (acc[j - i := old + v])))
          else Inr acc)"
  by pat_completeness auto
termination
  by (relation "measure (\<lambda>(i, j, matches, acc). length (matches ! 0) - j)")
    (auto simp: at_def split: if_splits)

declare sums_row.simps [simp del]

text \<open>The outer loop \<^verbatim>\<open>for i := 0; i < len(matches); i++\<close>, entered at \<open>i\<close>.\<close>

function sums_rows :: "nat \<Rightarrow> matrix \<Rightarrow> goint list \<Rightarrow> error + goint list" where
  "sums_rows i matches acc =
     (if i < length matches then
        (case sums_row i i matches acc of
           Inl e \<Rightarrow> Inl e
         | Inr acc' \<Rightarrow> sums_rows (i + 1) matches acc')
      else Inr acc)"
  by pat_completeness auto
termination
  by (relation "measure (\<lambda>(i, matches, acc). length matches - i)") auto

declare sums_rows.simps [simp del]

text \<open>\<^verbatim>\<open>make([]int, len(matches[0]))\<close> panics when \<^verbatim>\<open>matches\<close> has no row.\<close>

definition sums :: "matrix \<Rightarrow> error + goint list" where
  "sums matches =
     (case at matches 0 of
        Inl e \<Rightarrow> Inl e
      | Inr row0 \<Rightarrow> sums_rows 0 matches (replicate (length row0) 0))"

subsection \<open>Reading FASTA files\<close>

text \<open>
  A file is the string of its bytes; the file system is a map from paths to files, and
  \<^verbatim>\<open>os.Open\<close> fails on a path it lacks. Read errors other than the end of the file
  are not modelled.
\<close>

record fasta =
  header :: string
  seq :: string

definition add_seq :: "fasta \<Rightarrow> string \<Rightarrow> fasta" where
  "add_seq fa sequence = fa\<lparr>seq := seq fa @ sequence\<rparr>"

definition newline :: char where
  "newline = CHR 0x0A"

text \<open>
  What both readers do with one line, once the line is cut out of the input: an empty line
  is skipped, a line that starts with \<^verbatim>\<open>></\<close> (byte 62) opens a record, any other line is
  appended to the last record, \<^verbatim>\<open>seqs[len(seqs)-1]\<close>, which panics when there is none.
\<close>

definition add_line :: "string \<Rightarrow> fasta list \<Rightarrow> error + fasta list" where
  "add_line line seqs =
     (if line = [] then Inr seqs
      else if hd line = CHR ''>'' then Inr (seqs @ [\<lparr>header = tl line, seq = []\<rparr>])
      else if seqs = [] then Inl IndexOutOfRange
      else Inr (seqs[length seqs - 1 := add_seq (seqs ! (length seqs - 1)) line]))"

text \<open>
  gonk's \<^verbatim>\<open>readFasta\<close>. \<^verbatim>\<open>reader.ReadString('\n')\<close> returns the bytes up to and with
  the next newline; when the input ends before a newline it returns what is left together
  with \<^verbatim>\<open>io.EOF\<close>, and the loop breaks without looking at those bytes.
\<close>

function readFasta_loop :: "string \<Rightarrow> fasta list \<Rightarrow> error + fasta list" where
  "readFasta_loop input seqs =
     (if newline \<notin> set input then Inr seqs
      else
        let line = takeWhile (\<lambda>c. c \<noteq> newline) input;
            rest = drop (length line + 1) input
        in case add_line line seqs of
             Inl e \<Rightarrow> Inl e
           | Inr seqs' \<Rightarrow> readFasta_loop rest seqs')"
  by pat_completeness auto
termination
proof (relation "measure (\<lambda>(input, seqs). length input)")
  show "wf (measure (\<lambda>(input, seqs). length input))" by simp
next
  fix input :: string and seqs seqs' :: "fasta list" and line rest :: string
  assume "\<not> newline \<notin> set input" and "rest = drop (length line + 1) input"
  then have "input \<noteq> []" by auto
  then show "((rest, seqs'), (input, seqs)) \<in> measure (\<lambda>(input, seqs). length input)"
    using \<open>rest = drop (length line + 1) input\<close> by simp
qed

declare readFasta_loop.simps [simp del]

definition readFasta :: "(string \<rightharpoonup> string) \<Rightarrow> string \<Rightarrow> error + fasta list" where
  "readFasta fs seqFile =
     (case fs seqFile of None \<Rightarrow> Inl OpenFailed | Some input \<Rightarrow> readFasta_loop input [])"

text \<open>
  affine's \<^verbatim>\<open>fasta_reader\<close> reads with a \<^verbatim>\<open>bufio.Scanner\<close> and its default split
  function \<^verbatim>\<open>ScanLines\<close>. One call of \<^verbatim>\<open>Scan\<close> on the remaining input gives the next
  line and what is left after it, or nothing: at the end of the input, and also when the
  line does not fit the scanner's buffer of \<^verbatim>\<open>MaxScanTokenSize\<close> bytes
  (\<^verbatim>\<open>ErrTooLong\<close>; the line and its newline must fit together, and a last line without
  newline must leave one byte free). The last line counts whether or not a newline ends it,
  and one carriage return at the end of a line is dropped. \<^verbatim>\<open>fasta_reader\<close> does not look
  at the scanner's error.
\<close>

definition maxScanTokenSize :: nat where
  "maxScanTokenSize = 64 * 1024"

definition dropCR :: "string \<Rightarrow> string" where
  "dropCR line = (if line \<noteq> [] \<and> last line = CHR 0x0D then butlast line else line)"

definition scan :: "string \<Rightarrow> (string \<times> string) option" where
  "scan input =
     (if input = [] then None
      else
        let line = takeWhile (\<lambda>c. c \<noteq> newline) input
        in if maxScanTokenSize \<le> length line then None
           else Some (dropCR line, drop (length line + 1) input))"

function fasta_reader_loop :: "string \<Rightarrow> fasta list \<Rightarrow> error + fasta list" where
  "fasta_reader_loop input seqs =
     (case scan input of
        None \<Rightarrow> Inr seqs
      | Some (line, rest) \<Rightarrow>
          (case add_line line seqs of
             Inl e \<Rightarrow> Inl e
           | Inr seqs' \<Rightarrow> fasta_reader_loop rest seqs'))"
  by pat_completeness auto
termination
proof (relation "measure (\<lambda>(input, seqs). length input)")
  show "wf (measure (\<lambda>(input, seqs). length input))" by simp
next
  fix input :: string and seqs seqs' :: "fasta list" and x :: "string \<times> string" and line rest :: string
  assume "scan input = Some x" and "(line, rest) = x"
  then have "input \<noteq> []" and "rest = drop (length (takeWhile (\<lambda>c. c \<noteq> newline) input) + 1) input"
    by (auto simp: scan_def Let_def split: if_splits)
  then show "((rest, seqs'), (input, seqs)) \<in> measure (\<lambda>(input, seqs). length input)"
    by simp
qed

declare fasta_reader_loop.simps [simp del]

definition fasta_reader :: "(string \<rightharpoonup> string) \<Rightarrow> string \<Rightarrow> error + fasta list" where
  "fasta_reader fs seqFile =
     (case fs seqFile of None \<Rightarrow> Inl OpenFailed | Some input \<Rightarrow> fasta_reader_loop input [])"

subsection \<open>main\<close>

text \<open>
  The command-line flags of the two programs, named after their letters. What a run
  leaves behind when it ends well: the rows printed to standard output when \<^verbatim>\<open>-m\<close> is
  set, and the scores written to the output file, one line \<^verbatim>\<open>i:score\<close> for the \<open>i\<close>-th.
  The text of the lines, the diagnostics on standard error and the timer are not
  modelled; whether the output file can be created is a fact of the environment. A run
  that panics after printing the matrix has printed it; the model keeps only the error.
\<close>

record gonk_flags =
  gonk_a :: string
  gonk_b :: string
  gonk_d :: bool
  gonk_p :: goint
  gonk_m :: bool
  gonk_o :: string

record affine_flags =
  affine_a :: string
  affine_b :: string
  affine_d :: bool
  affine_o :: goint
  affine_e :: goint
  affine_m :: bool
  affine_out :: string

record run_result =
  printed :: "matrix option"
  written :: "goint list"

definition writeScores :: "bool \<Rightarrow> goint list \<Rightarrow> error + goint list" where
  "writeScores can_create sumList = (if can_create then Inr sumList else Inl CreateFailed)"

definition main_const :: "gonk_flags \<Rightarrow> (string \<rightharpoonup> string) \<Rightarrow> bool \<Rightarrow> error + run_result" where
  "main_const flags fs can_create =
     (if gonk_a flags = [] \<or> gonk_b flags = [] then Inl MissingSequences
      else
        ebind (readFasta fs (gonk_a flags)) (\<lambda>recsA.
        ebind (at recsA 0) (\<lambda>recA.
        let first = seq recA in
        ebind (readFasta fs (gonk_b flags)) (\<lambda>recsB.
        ebind (at recsB 0) (\<lambda>recB.
        let second = seq recB;
            n = length first; m = length second;
            matches = makeMatrix n m
        in
        ebind (populate_const (gonk_d flags) (gonk_p flags) matches first second) (\<lambda>matchMatrix.
        ebind (sums matchMatrix) (\<lambda>sumList.
        ebind (writeScores can_create sumList) (\<lambda>scores.
        Inr \<lparr>printed = (if gonk_m flags then Some matchMatrix else None),
             written = scores\<rparr>))))))))"

definition main_affine :: "affine_flags \<Rightarrow> (string \<rightharpoonup> string) \<Rightarrow> bool \<Rightarrow> error + run_result" where
  "main_affine flags fs can_create =
     (if affine_a flags = [] \<or> affine_b flags = [] then Inl MissingSequences
      else
        ebind (fasta_reader fs (affine_a flags)) (\<lambda>recsA.
        ebind (at recsA 0) (\<lambda>recA.
        let first = seq recA in
        ebind (fasta_reader fs (affine_b flags)) (\<lambda>recsB.
        ebind (at recsB 0) (\<lambda>recB.
        let second = seq recB;
            n = length first; m = length second
        in
        ebind (populate_affine (affine_d flags) (affine_o flags) (affine_e flags)
                 (makeMatrix n m) (makeMatrix n m) (makeMatrix n m) first second) (\<lambda>ms.
        let matchMatrix = fst ms in
        ebind (sums matchMatrix) (\<lambda>sumList.
        ebind (writeScores can_create sumList) (\<lambda>scores.
        Inr \<lparr>printed = (if affine_m flags then Some matchMatrix else None),
             written = scores\<rparr>))))))))"

section \<open>Properties of the model\<close>

subsection \<open>Matrices of a fixed shape\<close>

text \<open>
  \<open>shaped n m M\<close>: \<open>M\<close> has \<open>n + 1\<close> rows of \<open>m + 1\<close> cells each, as
  \<open>makeMatrix n m\<close> has. On such a matrix no index of the builders is out of range.
\<close>

definition shaped :: "nat \<Rightarrow> nat \<Rightarrow> matrix \<Rightarrow> bool" where
  "shaped n m M \<longleftrightarrow> map length M = replicate (n + 1) (m + 1)"

lemma shaped_length: "shaped n m M \<Longrightarrow> length M = n + 1"
  by (metis shaped_def length_map length_replicate)

lemma shaped_row: "shaped n m M \<Longrightarrow> i \<le> n \<Longrightarrow> length (M ! i) = m + 1"
proof -
  assume s: "shaped n m M" and i: "i \<le> n"
  then have "i < length M" by (simp add: shaped_length)
  then have "length (M ! i) = map length M ! i" by simp
  also have "\<dots> = replicate (n + 1) (m + 1) ! i" using s by (simp only: shaped_def)
  also have "\<dots> = m + 1" using i by (intro nth_replicate) simp
  finally show ?thesis .
qed

lemma shaped_makeMatrix: "shaped n m (makeMatrix n m)"
  by (simp add: shaped_def makeMatrix_def map_replicate_const)

definition put :: "matrix \<Rightarrow> nat \<Rightarrow> nat \<Rightarrow> goint \<Rightarrow> matrix" where
  "put M i j v = M[i := (M ! i)[j := v]]"

lemma map_length_put: "map length (put M i j v) = map length M"
proof (cases "i < length M")
  case True
  then show ?thesis by (simp add: put_def map_update list_update_same_conv)
next
  case False
  then have "M[i := (M ! i)[j := v]] = M" by (intro list_update_beyond) simp
  then show ?thesis by (simp add: put_def)
qed

lemma shaped_put: "shaped n m M \<Longrightarrow> shaped n m (put M i j v)"
  by (simp only: shaped_def map_length_put)

lemma put_nth:
  "shaped n m M \<Longrightarrow> i \<le> n \<Longrightarrow> j \<le> m \<Longrightarrow>
   put M i j v ! i' ! j' = (if i' = i \<and> j' = j then v else M ! i' ! j')"
  by (auto simp: put_def shaped_length shaped_row nth_list_update)

lemma get2_shaped: "shaped n m M \<Longrightarrow> i \<le> n \<Longrightarrow> j \<le> m \<Longrightarrow> get2 M i j = Inr (M ! i ! j)"
  by (simp add: get2_def at_def ebind_def shaped_length shaped_row)

lemma set2_shaped: "shaped n m M \<Longrightarrow> i \<le> n \<Longrightarrow> j \<le> m \<Longrightarrow> set2 M i j v = Inr (put M i j v)"
  by (simp add: set2_def put_def shaped_length shaped_row)

definition score_const :: "char \<Rightarrow> char \<Rightarrow> goint" where
  "score_const a b =
     scores_const ! lookup0 baseInt_const (of_char a) ! lookup0 baseInt_const (of_char b)"

definition val_const :: "bool \<Rightarrow> goint \<Rightarrow> string \<Rightarrow> string \<Rightarrow> matrix \<Rightarrow> nat \<Rightarrow> nat \<Rightarrow> goint" where
  "val_const diag penalty seqA seqB M i j =
     (if i = j \<and> diag then 0
      else maxScore_const
        [M ! (i - 1) ! (j - 1) + score_const (seqA ! (i - 1)) (seqB ! (j - 1)),
         M ! (i - 1) ! j - penalty,
         M ! i ! (j - 1) - penalty,
         0])"

lemma cell_const_shaped:
  assumes "shaped n m M" "1 \<le> i" "i \<le> n" "1 \<le> j" "j \<le> m" "n \<le> length seqA" "m \<le> length seqB"
  shows "cell_const diag penalty seqA seqB i j M = Inr (put M i j (val_const diag penalty seqA seqB M i j))"
proof -
  have a: "at seqA (i - Suc 0) = Inr (seqA ! (i - Suc 0))"
    "at seqB (j - Suc 0) = Inr (seqB ! (j - Suc 0))"
    using assms by (simp_all add: at_def)
  have g: "get2 M (i - Suc 0) (j - Suc 0) = Inr (M ! (i - Suc 0) ! (j - Suc 0))"
    "get2 M (i - Suc 0) j = Inr (M ! (i - Suc 0) ! j)"
    "get2 M i (j - Suc 0) = Inr (M ! i ! (j - Suc 0))"
    using assms by (simp_all add: get2_shaped)
  show ?thesis
    using assms(1,3,5) by (simp add: cell_const_def val_const_def score_const_def a g ebind_def set2_shaped)
qed

lemma val_const_cong:
  "M' ! (i - 1) ! (j - 1) = M ! (i - 1) ! (j - 1) \<Longrightarrow> M' ! (i - 1) ! j = M ! (i - 1) ! j \<Longrightarrow>
   M' ! i ! (j - 1) = M ! i ! (j - 1) \<Longrightarrow>
   val_const diag penalty seqA seqB M' i j = val_const diag penalty seqA seqB M i j"
  by (simp add: val_const_def)

lemma row_const_shaped:
  assumes "shaped n m M" "1 \<le> i" "i \<le> n" "1 \<le> j" "j \<le> m + 1" "n \<le> length seqA" "m \<le> length seqB"
  shows "\<exists>M'. row_const diag penalty seqA seqB i j M = Inr M' \<and> shaped n m M' \<and>
           (\<forall>i' j'. i' \<noteq> i \<or> j' < j \<longrightarrow> M' ! i' ! j' = M ! i' ! j') \<and>
           (\<forall>j'. j \<le> j' \<and> j' \<le> m \<longrightarrow> M' ! i ! j' = val_const diag penalty seqA seqB M' i j')"
  using assms
proof (induction diag penalty seqA seqB i j M rule: row_const.induct)
  case (1 diag penalty seqA seqB i j M)
  have r0: "at M 0 = Inr (M ! 0)" "length (M ! 0) = m + 1"
    using "1.prems"(1) by (simp_all add: at_def shaped_length shaped_row)
  show ?case
  proof (cases "j \<le> m")
    case False
    with "1.prems" r0 show ?thesis by (auto simp: row_const.simps [of _ _ _ _ i j M])
  next
    case True
    let ?v = "val_const diag penalty seqA seqB M i j"
    let ?M1 = "put M i j ?v"
    have c: "cell_const diag penalty seqA seqB i j M = Inr ?M1"
      using "1.prems" True by (intro cell_const_shaped) simp_all
    have s1: "shaped n m ?M1" using "1.prems"(1) by (rule shaped_put)
    from True r0 have lt: "j < length (M ! 0)" by simp
    from "1.IH" [OF r0(1) lt c s1] "1.prems" True
    obtain M' where M': "row_const diag penalty seqA seqB i (j + 1) ?M1 = Inr M'" "shaped n m M'"
      "\<And>i' j'. i' \<noteq> i \<or> j' < j + 1 \<Longrightarrow> M' ! i' ! j' = ?M1 ! i' ! j'"
      "\<And>j'. j + 1 \<le> j' \<Longrightarrow> j' \<le> m \<Longrightarrow> M' ! i ! j' = val_const diag penalty seqA seqB M' i j'"
      by auto
    have nth1: "\<And>i' j'. ?M1 ! i' ! j' = (if i' = i \<and> j' = j then ?v else M ! i' ! j')"
      using "1.prems" True by (intro put_nth) simp_all
    have run: "row_const diag penalty seqA seqB i j M = Inr M'"
      using r0 lt c M'(1) by (simp add: row_const.simps [of _ _ _ _ i j M])
    have frame: "\<And>i' j'. i' \<noteq> i \<or> j' < j \<Longrightarrow> M' ! i' ! j' = M ! i' ! j'"
    proof -
      fix i' j' assume h: "i' \<noteq> i \<or> j' < j"
      then have "M' ! i' ! j' = ?M1 ! i' ! j'" by (intro M'(3)) auto
      with h show "M' ! i' ! j' = M ! i' ! j'" by (auto simp: nth1)
    qed
    have here: "M' ! i ! j = val_const diag penalty seqA seqB M' i j"
    proof -
      have "M' ! i ! j = ?M1 ! i ! j" by (intro M'(3)) simp
      also have "\<dots> = ?v" by (simp add: nth1)
      also have "\<dots> = val_const diag penalty seqA seqB M' i j"
        using "1.prems"(2,4) by (intro val_const_cong [symmetric] frame) auto
      finally show ?thesis .
    qed
    have rec: "\<And>j'. j \<le> j' \<Longrightarrow> j' \<le> m \<Longrightarrow> M' ! i ! j' = val_const diag penalty seqA seqB M' i j'"
    proof -
      fix j' assume "j \<le> j'" "j' \<le> m"
      then show "M' ! i ! j' = val_const diag penalty seqA seqB M' i j'"
        using here M'(4) [of j'] by (cases "j' = j") auto
    qed
    from run M'(2) frame rec show ?thesis by blast
  qed
qed


lemma rows_const_shaped:
  assumes "shaped n m M" "1 \<le> i" "i \<le> n + 1" "n \<le> length seqA" "m \<le> length seqB"
  shows "\<exists>M'. rows_const diag penalty seqA seqB i M = Inr M' \<and> shaped n m M' \<and>
           (\<forall>i' j'. i' < i \<or> j' = 0 \<longrightarrow> M' ! i' ! j' = M ! i' ! j') \<and>
           (\<forall>i' j'. i \<le> i' \<and> i' \<le> n \<and> 1 \<le> j' \<and> j' \<le> m \<longrightarrow>
              M' ! i' ! j' = val_const diag penalty seqA seqB M' i' j')"
  using assms
proof (induction diag penalty seqA seqB i M rule: rows_const.induct)
  case (1 diag penalty seqA seqB i M)
  have len: "length M = n + 1" using "1.prems"(1) by (rule shaped_length)
  show ?case
  proof (cases "i \<le> n")
    case False
    with "1.prems" len show ?thesis by (auto simp: rows_const.simps [of _ _ _ _ i M])
  next
    case True
    with len have lt: "i < length M" by simp
    from row_const_shaped [OF "1.prems"(1,2) True _ _ "1.prems"(4,5), of 1 diag penalty]
    obtain M1 where M1: "row_const diag penalty seqA seqB i 1 M = Inr M1" "shaped n m M1"
      "\<And>i' j'. i' \<noteq> i \<or> j' < 1 \<Longrightarrow> M1 ! i' ! j' = M ! i' ! j'"
      "\<And>j'. 1 \<le> j' \<Longrightarrow> j' \<le> m \<Longrightarrow> M1 ! i ! j' = val_const diag penalty seqA seqB M1 i j'"
      by auto
    have "\<exists>M'. rows_const diag penalty seqA seqB (i + 1) M1 = Inr M' \<and> shaped n m M' \<and>
           (\<forall>i' j'. i' < i + 1 \<or> j' = 0 \<longrightarrow> M' ! i' ! j' = M1 ! i' ! j') \<and>
           (\<forall>i' j'. i + 1 \<le> i' \<and> i' \<le> n \<and> 1 \<le> j' \<and> j' \<le> m \<longrightarrow>
              M' ! i' ! j' = val_const diag penalty seqA seqB M' i' j')"
      using "1.prems" True by (intro "1.IH" [OF lt M1(1) M1(2)]) simp_all
    then obtain M' where ex: "rows_const diag penalty seqA seqB (i + 1) M1 = Inr M' \<and> shaped n m M' \<and>
           (\<forall>i' j'. i' < i + 1 \<or> j' = 0 \<longrightarrow> M' ! i' ! j' = M1 ! i' ! j') \<and>
           (\<forall>i' j'. i + 1 \<le> i' \<and> i' \<le> n \<and> 1 \<le> j' \<and> j' \<le> m \<longrightarrow>
              M' ! i' ! j' = val_const diag penalty seqA seqB M' i' j')" ..
    then have M': "rows_const diag penalty seqA seqB (i + 1) M1 = Inr M'" "shaped n m M'"
      "\<And>i' j'. i' < i + 1 \<or> j' = 0 \<Longrightarrow> M' ! i' ! j' = M1 ! i' ! j'"
      "\<And>i' j'. i + 1 \<le> i' \<Longrightarrow> i' \<le> n \<Longrightarrow> 1 \<le> j' \<Longrightarrow> j' \<le> m \<Longrightarrow>
         M' ! i' ! j' = val_const diag penalty seqA seqB M' i' j'"
      by auto
    have run: "rows_const diag penalty seqA seqB i M = Inr M'"
      using lt M1(1) M'(1) by (simp add: rows_const.simps [of _ _ _ _ i M])
    have frame: "\<And>i' j'. i' < i \<or> j' = 0 \<Longrightarrow> M' ! i' ! j' = M ! i' ! j'"
    proof -
      fix i' j' :: nat assume h: "i' < i \<or> j' = 0"
      then have "M' ! i' ! j' = M1 ! i' ! j'" by (intro M'(3)) auto
      also from h have "\<dots> = M ! i' ! j'" by (intro M1(3)) auto
      finally show "M' ! i' ! j' = M ! i' ! j'" .
    qed
    have here: "\<And>j'. 1 \<le> j' \<Longrightarrow> j' \<le> m \<Longrightarrow> M' ! i ! j' = val_const diag penalty seqA seqB M' i j'"
    proof -
      fix j' assume j': "1 \<le> j'" "j' \<le> m"
      have "M' ! i ! j' = M1 ! i ! j'" by (intro M'(3)) simp
      also have "\<dots> = val_const diag penalty seqA seqB M1 i j'" using j' by (rule M1(4))
      also have "\<dots> = val_const diag penalty seqA seqB M' i j'"
        using "1.prems"(2) by (intro val_const_cong [symmetric] M'(3)) auto
      finally show "M' ! i ! j' = val_const diag penalty seqA seqB M' i j'" .
    qed
    have rec: "\<And>i' j'. i \<le> i' \<Longrightarrow> i' \<le> n \<Longrightarrow> 1 \<le> j' \<Longrightarrow> j' \<le> m \<Longrightarrow>
        M' ! i' ! j' = val_const diag penalty seqA seqB M' i' j'"
    proof -
      fix i' j' assume "i \<le> i'" "i' \<le> n" "1 \<le> j'" "j' \<le> m"
      then show "M' ! i' ! j' = val_const diag penalty seqA seqB M' i' j'"
        using here [of j'] M'(4) [of i' j'] by (cases "i' = i") auto
    qed
    from run M'(2) frame rec show ?thesis by blast
  qed
qed

lemma makeMatrix_nth: "i \<le> n \<Longrightarrow> j \<le> m \<Longrightarrow> makeMatrix n m ! i ! j = 0"
  by (simp add: makeMatrix_def del: upt_Suc replicate.simps)

text \<open>What gonk's \<open>populate\<close> returns on the matrix that \<open>main\<close> hands it.\<close>

lemma populate_const_makeMatrix:
  assumes "n \<le> length seqA" "m \<le> length seqB"
  shows "\<exists>R. populate_const diag penalty (makeMatrix n m) seqA seqB = Inr R \<and> shaped n m R \<and>
           (\<forall>j \<le> m. R ! 0 ! j = 0) \<and> (\<forall>i \<le> n. R ! i ! 0 = 0) \<and>
           (\<forall>i j. 1 \<le> i \<and> i \<le> n \<and> 1 \<le> j \<and> j \<le> m \<longrightarrow>
              R ! i ! j = val_const diag penalty seqA seqB R i j)"
proof -
  have "\<exists>R. rows_const diag penalty seqA seqB 1 (makeMatrix n m) = Inr R \<and> shaped n m R \<and>
           (\<forall>i' j'. i' < 1 \<or> j' = 0 \<longrightarrow> R ! i' ! j' = makeMatrix n m ! i' ! j') \<and>
           (\<forall>i' j'. 1 \<le> i' \<and> i' \<le> n \<and> 1 \<le> j' \<and> j' \<le> m \<longrightarrow>
              R ! i' ! j' = val_const diag penalty seqA seqB R i' j')"
    using assms by (intro rows_const_shaped shaped_makeMatrix) simp_all
  then obtain R where ex: "rows_const diag penalty seqA seqB 1 (makeMatrix n m) = Inr R \<and> shaped n m R \<and>
           (\<forall>i' j'. i' < 1 \<or> j' = 0 \<longrightarrow> R ! i' ! j' = makeMatrix n m ! i' ! j') \<and>
           (\<forall>i' j'. 1 \<le> i' \<and> i' \<le> n \<and> 1 \<le> j' \<and> j' \<le> m \<longrightarrow>
              R ! i' ! j' = val_const diag penalty seqA seqB R i' j')" ..
  then have R: "rows_const diag penalty seqA seqB 1 (makeMatrix n m) = Inr R" "shaped n m R"
    "\<And>i' j'. i' < 1 \<or> j' = 0 \<Longrightarrow> R ! i' ! j' = makeMatrix n m ! i' ! j'"
    "\<And>i' j'. 1 \<le> i' \<Longrightarrow> i' \<le> n \<Longrightarrow> 1 \<le> j' \<Longrightarrow> j' \<le> m \<Longrightarrow>
       R ! i' ! j' = val_const diag penalty seqA seqB R i' j'"
    by auto
  have "\<forall>j \<le> m. R ! 0 ! j = 0" using R(3) [of 0] by (simp add: makeMatrix_nth)
  moreover have "\<forall>i \<le> n. R ! i ! 0 = 0" using R(3) [of _ 0] by (simp add: makeMatrix_nth)
  ultimately show ?thesis using R(1,2,4) by (auto simp: populate_const_def)
qed

subsection \<open>The affine builder on matrices of a fixed shape\<close>

definition shaped3 :: "nat \<Rightarrow> nat \<Rightarrow> matrices \<Rightarrow> bool" where
  "shaped3 n m ms = (case ms of (matches, gapA, gapB) \<Rightarrow>
     shaped n m matches \<and> shaped n m gapA \<and> shaped n m gapB)"

definition cells :: "matrices \<Rightarrow> nat \<Rightarrow> nat \<Rightarrow> goint \<times> goint \<times> goint" where
  "cells ms i j = (case ms of (matches, gapA, gapB) \<Rightarrow> (matches ! i ! j, gapA ! i ! j, gapB ! i ! j))"

definition put3 :: "matrices \<Rightarrow> nat \<Rightarrow> nat \<Rightarrow> goint \<times> goint \<times> goint \<Rightarrow> matrices" where
  "put3 ms i j v = (case ms of (matches, gapA, gapB) \<Rightarrow> case v of (c, a, b) \<Rightarrow>
     (put matches i j c, put gapA i j a, put gapB i j b))"

definition score_affine :: "char \<Rightarrow> char \<Rightarrow> goint" where
  "score_affine a b =
     scores_affine ! lookup0 baseInt_affine (of_char a) ! lookup0 baseInt_affine (of_char b)"

text \<open>
  The three values the loop over \<open>k\<close> computes at a cell, from the cells the three
  matrices hold at its three predecessors, and the value stored last in \<^verbatim>\<open>matches\<close>.
\<close>

definition pot0 :: "goint \<Rightarrow> goint \<times> goint \<times> goint \<Rightarrow> goint list" where
  "pot0 score d = (case d of (c, a, b) \<Rightarrow> [c + score, a + score, b + score])"

definition pot1 :: "goint \<Rightarrow> goint \<Rightarrow> goint \<times> goint \<times> goint \<Rightarrow> goint list" where
  "pot1 gopen ext l = (case l of (c, a, b) \<Rightarrow>
     [- gopen - ext + c, - ext + a, - gopen - ext + b])"

definition pot2 :: "goint \<Rightarrow> goint \<Rightarrow> goint \<times> goint \<times> goint \<Rightarrow> goint list" where
  "pot2 gopen ext u = (case u of (c, a, b) \<Rightarrow>
     [- gopen - ext + c, - gopen - ext + a, - ext + b])"

definition valM :: "goint \<Rightarrow> goint \<times> goint \<times> goint \<Rightarrow> goint" where
  "valM score d = maxScore_affine (pot0 score d)"

definition valGa :: "goint \<Rightarrow> goint \<Rightarrow> goint \<times> goint \<times> goint \<Rightarrow> goint" where
  "valGa gopen ext l = maxScore_affine (pot1 gopen ext l)"

definition valGb :: "goint \<Rightarrow> goint \<Rightarrow> goint \<times> goint \<times> goint \<Rightarrow> goint" where
  "valGb gopen ext u = maxScore_affine (pot2 gopen ext u)"

definition val_affine :: "bool \<Rightarrow> goint \<Rightarrow> goint \<Rightarrow> string \<Rightarrow> string \<Rightarrow> matrices \<Rightarrow> nat \<Rightarrow> nat \<Rightarrow> goint \<times> goint \<times> goint \<Rightarrow> goint \<times> goint \<times> goint" where
  "val_affine diag gopen ext seqA seqB ms i j old =
     (if i = j \<and> diag then (0, fst (snd old), snd (snd old))
      else
        let score = score_affine (seqA ! (i - 1)) (seqB ! (j - 1));
            vm = valM score (cells ms (i - 1) (j - 1));
            va = valGa gopen ext (cells ms i (j - 1));
            vb = valGb gopen ext (cells ms (i - 1) j)
        in (maxScore_affine [vm, va, vb], va, vb))"

lemma shaped3_put3: "shaped3 n m ms \<Longrightarrow> shaped3 n m (put3 ms i j v)"
  by (auto simp: shaped3_def put3_def shaped_put split: prod.splits)

lemma cells_put3:
  "shaped3 n m ms \<Longrightarrow> i \<le> n \<Longrightarrow> j \<le> m \<Longrightarrow>
   cells (put3 ms i j v) i' j' = (if i' = i \<and> j' = j then v else cells ms i' j')"
  by (auto simp: shaped3_def put3_def cells_def put_nth split: prod.splits)

lemma put_same: "shaped n m M \<Longrightarrow> i \<le> n \<Longrightarrow> j \<le> m \<Longrightarrow> put M i j (M ! i ! j) = M"
  by (simp add: put_def)

lemma potential_affine_shaped:
  assumes "shaped3 n m ms" "1 \<le> i" "i \<le> n" "1 \<le> j" "j \<le> m"
  shows "potential_affine gopen ext score 0 i j ms =
           Inr (pot0 score (cells ms (i - 1) (j - 1)))"
    and "potential_affine gopen ext score (Suc 0) i j ms =
           Inr (pot1 gopen ext (cells ms i (j - 1)))"
    and "potential_affine gopen ext score 2 i j ms =
           Inr (pot2 gopen ext (cells ms (i - 1) j))"
proof -
  obtain C Ga Gb where ms: "ms = (C, Ga, Gb)" by (cases ms)
  from assms(1) ms have sh: "shaped n m C" "shaped n m Ga" "shaped n m Gb"
    by (simp_all add: shaped3_def)
  have le: "i - Suc 0 \<le> n" "j - Suc 0 \<le> m" "i \<le> n" "j \<le> m" using assms(3,5) by simp_all
  note g = get2_shaped [OF sh(1)] get2_shaped [OF sh(2)] get2_shaped [OF sh(3)]
  show "potential_affine gopen ext score 0 i j ms =
           Inr (pot0 score (cells ms (i - 1) (j - 1)))"
    by (simp add: ms potential_affine_def cells_def ebind_def g le pot0_def pot1_def pot2_def)
  show "potential_affine gopen ext score (Suc 0) i j ms =
           Inr (pot1 gopen ext (cells ms i (j - 1)))"
    by (simp add: ms potential_affine_def cells_def ebind_def g le pot0_def pot1_def pot2_def)
  show "potential_affine gopen ext score 2 i j ms =
           Inr (pot2 gopen ext (cells ms (i - 1) j))"
    by (simp add: ms potential_affine_def cells_def ebind_def g le pot0_def pot1_def pot2_def)
qed

lemma store_affine_shaped:
  assumes "shaped3 n m ms" "i \<le> n" "j \<le> m"
  shows "store_affine 0 i j v ms = Inr (put (fst ms) i j v, fst (snd ms), snd (snd ms))"
    and "store_affine (Suc 0) i j v ms = Inr (fst ms, put (fst (snd ms)) i j v, snd (snd ms))"
    and "store_affine 2 i j v ms = Inr (fst ms, fst (snd ms), put (snd (snd ms)) i j v)"
proof -
  obtain C Ga Gb where ms: "ms = (C, Ga, Gb)" by (cases ms)
  from assms(1) ms have sh: "shaped n m C" "shaped n m Ga" "shaped n m Gb"
    by (simp_all add: shaped3_def)
  note s = set2_shaped [OF sh(1) assms(2,3)] set2_shaped [OF sh(2) assms(2,3)]
    set2_shaped [OF sh(3) assms(2,3)]
  show "store_affine 0 i j v ms = Inr (put (fst ms) i j v, fst (snd ms), snd (snd ms))"
    by (simp add: ms store_affine_def ebind_def s)
  show "store_affine (Suc 0) i j v ms = Inr (fst ms, put (fst (snd ms)) i j v, snd (snd ms))"
    by (simp add: ms store_affine_def ebind_def s)
  show "store_affine 2 i j v ms = Inr (fst ms, fst (snd ms), put (snd (snd ms)) i j v)"
    by (simp add: ms store_affine_def ebind_def s)
qed

lemma cells_put_other:
  assumes "shaped3 n m (C, Ga, Gb)" "i \<le> n" "j \<le> m" "(i', j') \<noteq> (i, j)"
  shows "cells (put C i j v, Ga, Gb) i' j' = cells (C, Ga, Gb) i' j'"
    and "cells (C, put Ga i j v, Gb) i' j' = cells (C, Ga, Gb) i' j'"
    and "cells (C, Ga, put Gb i j v) i' j' = cells (C, Ga, Gb) i' j'"
  using assms by (auto simp: cells_def shaped3_def put_nth)

lemma put_put: "shaped n m M \<Longrightarrow> i \<le> n \<Longrightarrow> put (put M i j v) i j w = put M i j w"
  by (simp add: put_def shaped_length)

lemma cell_affine_shaped:
  assumes "shaped3 n m ms" "1 \<le> i" "i \<le> n" "1 \<le> j" "j \<le> m" "n \<le> length seqA" "m \<le> length seqB"
  shows "cell_affine diag gopen ext seqA seqB i j ms =
         Inr (put3 ms i j (val_affine diag gopen ext seqA seqB ms i j (cells ms i j)))"
proof -
  obtain C Ga Gb where ms: "ms = (C, Ga, Gb)" by (cases ms)
  from assms(1) ms have sh: "shaped n m C" "shaped n m Ga" "shaped n m Gb"
    by (simp_all add: shaped3_def)
  show ?thesis
  proof (cases "i = j \<and> diag")
    case True
    then show ?thesis
      using sh assms(3,5) ms
      by (simp add: cell_affine_def val_affine_def put3_def cells_def ebind_def set2_shaped put_same)
  next
    case False
    then have nex: "(i = j \<and> diag) = False" by simp
    define score where "score = score_affine (seqA ! (i - 1)) (seqB ! (j - 1))"
    define vm where "vm = valM score (cells ms (i - 1) (j - 1))"
    define va where "va = valGa gopen ext (cells ms i (j - 1))"
    define vb where "vb = valGb gopen ext (cells ms (i - 1) j)"
    have a: "at seqA (i - 1) = Inr (seqA ! (i - 1))" "at seqB (j - 1) = Inr (seqB ! (j - 1))"
      using assms by (simp_all add: at_def)
    let ?ms1 = "(put C i j vm, Ga, Gb)"
    let ?ms2 = "(put C i j vm, put Ga i j va, Gb)"
    let ?ms3 = "(put C i j vm, put Ga i j va, put Gb i j vb)"
    have sh0: "shaped3 n m (C, Ga, Gb)" using assms(1) ms by simp
    have sh1: "shaped3 n m ?ms1" and sh2: "shaped3 n m ?ms2" and sh3: "shaped3 n m ?ms3"
      using sh by (simp_all add: shaped3_def shaped_put)
    have p0: "potential_affine gopen ext score 0 i j ms =
        Inr (pot0 score (cells ms (i - 1) (j - 1)))"
      using assms(1-5) by (rule potential_affine_shaped)
    have s0: "store_affine 0 i j vm ms = Inr ?ms1"
      using store_affine_shaped(1) [OF assms(1,3,5)] ms by simp
    have c1: "cells ?ms1 i (j - 1) = cells ms i (j - 1)"
    proof -
      have ne: "(i, j - 1) \<noteq> (i, j)" using assms(4) by simp
      show ?thesis using cells_put_other(1) [OF sh0 assms(3,5) ne] ms by simp
    qed
    have p1: "potential_affine gopen ext score (Suc 0) i j ?ms1 =
        Inr (pot1 gopen ext (cells ms i (j - 1)))"
      using potential_affine_shaped(2) [OF sh1 assms(2-5)] c1 by simp
    have s1: "store_affine (Suc 0) i j va ?ms1 = Inr ?ms2"
      using store_affine_shaped(2) [OF sh1 assms(3,5)] by simp
    have c2: "cells ?ms2 (i - 1) j = cells ms (i - 1) j"
    proof -
      have ne: "(i - 1, j) \<noteq> (i, j)" using assms(2) by simp
      have "cells ?ms2 (i - 1) j = cells ?ms1 (i - 1) j"
        using cells_put_other(2) [OF sh1 assms(3,5) ne] by simp
      also have "\<dots> = cells (C, Ga, Gb) (i - 1) j"
        using cells_put_other(1) [OF sh0 assms(3,5) ne] by simp
      finally show ?thesis using ms by simp
    qed
    have p2: "potential_affine gopen ext score 2 i j ?ms2 =
        Inr (pot2 gopen ext (cells ms (i - 1) j))"
      using potential_affine_shaped(3) [OF sh2 assms(2-5)] c2 by simp
    have s2: "store_affine 2 i j vb ?ms2 = Inr ?ms3"
      using store_affine_shaped(3) [OF sh2 assms(3,5)] by simp
    have m0: "maxScore_affine (pot0 score (cells ms (i - 1) (j - 1))) = vm"
      by (simp only: vm_def valM_def)
    have m1: "maxScore_affine (pot1 gopen ext (cells ms i (j - 1))) = va"
      by (simp only: va_def valGa_def)
    have m2: "maxScore_affine (pot2 gopen ext (cells ms (i - 1) j)) = vb"
      by (simp only: vb_def valGb_def)
    have mx: "[0, 0, 0][0 := vm, Suc 0 := va, 2 := vb] = [vm, va, vb]"
      by (simp add: eval_nat_numeral)
    have "kloop_affine gopen ext score i j [0, Suc 0, 2] ([0, 0, 0], ms) = Inr ([vm, va, vb], ?ms3)"
      by (simp add: ebind_def p0 m0 s0 p1 m1 s1 p2 m2 s2 mx Let_def del: One_nat_def list_update.simps)
    then have k: "kloop_affine gopen ext score i j [0, 1, 2] ([0, 0, 0], ms) = Inr ([vm, va, vb], ?ms3)"
      by (simp only: One_nat_def)
    have fin: "set2 (put C i j vm) i j (maxScore_affine [vm, va, vb]) =
        Inr (put C i j (maxScore_affine [vm, va, vb]))"
      using set2_shaped [OF shaped_put [OF sh(1)] assms(3,5), of i j vm "maxScore_affine [vm, va, vb]"]
      by (simp add: put_put [OF sh(1) assms(3)])
    have "cell_affine diag gopen ext seqA seqB i j ms =
        Inr (put C i j (maxScore_affine [vm, va, vb]), put Ga i j va, put Gb i j vb)"
      using ms a k fin
      by (simp add: cell_affine_def ebind_def Let_def score_def score_affine_def nex
          del: kloop_affine.simps One_nat_def)
    moreover have "val_affine diag gopen ext seqA seqB ms i j (cells ms i j) =
        (maxScore_affine [vm, va, vb], va, vb)"
      by (simp add: val_affine_def Let_def vm_def va_def vb_def score_def nex)
    ultimately show ?thesis by (simp add: put3_def ms)
  qed
qed

lemma val_affine_cong:
  "cells ms' (i - 1) (j - 1) = cells ms (i - 1) (j - 1) \<Longrightarrow>
   cells ms' (i - 1) j = cells ms (i - 1) j \<Longrightarrow>
   cells ms' i (j - 1) = cells ms i (j - 1) \<Longrightarrow>
   val_affine diag gopen ext seqA seqB ms' i j old = val_affine diag gopen ext seqA seqB ms i j old"
  by (simp add: val_affine_def)

lemma shaped3_fst: "shaped3 n m ms \<Longrightarrow> shaped n m (fst ms)"
  by (auto simp: shaped3_def split: prod.splits)

lemma row_affine_shaped:
  assumes "shaped3 n m ms" "1 \<le> i" "i \<le> n" "1 \<le> j" "j \<le> m + 1" "n \<le> length seqA" "m \<le> length seqB"
  shows "\<exists>ms'. row_affine diag gopen ext seqA seqB i j ms = Inr ms' \<and> shaped3 n m ms' \<and>
           (\<forall>i' j'. i' \<noteq> i \<or> j' < j \<longrightarrow> cells ms' i' j' = cells ms i' j') \<and>
           (\<forall>j'. j \<le> j' \<and> j' \<le> m \<longrightarrow>
              cells ms' i j' = val_affine diag gopen ext seqA seqB ms' i j' (cells ms i j'))"
  using assms
proof (induction diag gopen ext seqA seqB i j ms rule: row_affine.induct)
  case (1 diag gopen ext seqA seqB i j ms)
  note unfold = row_affine.simps [of diag gopen ext seqA seqB i j ms]
  have sh: "shaped n m (fst ms)" using "1.prems"(1) by (rule shaped3_fst)
  have r0: "at (fst ms) 0 = Inr (fst ms ! 0)" "length (fst ms ! 0) = m + 1"
    using sh by (simp_all add: at_def shaped_length shaped_row)
  show ?case
  proof (cases "j \<le> m")
    case False
    with "1.prems" r0 show ?thesis by (auto simp: unfold)
  next
    case True
    let ?v = "val_affine diag gopen ext seqA seqB ms i j (cells ms i j)"
    let ?ms1 = "put3 ms i j ?v"
    have c: "cell_affine diag gopen ext seqA seqB i j ms = Inr ?ms1"
      using "1.prems" True by (intro cell_affine_shaped) simp_all
    have s1: "shaped3 n m ?ms1" using "1.prems"(1) by (rule shaped3_put3)
    from True r0 have lt: "j < length (fst ms ! 0)" by simp
    have "\<exists>ms'. row_affine diag gopen ext seqA seqB i (j + 1) ?ms1 = Inr ms' \<and> shaped3 n m ms' \<and>
           (\<forall>i' j'. i' \<noteq> i \<or> j' < j + 1 \<longrightarrow> cells ms' i' j' = cells ?ms1 i' j') \<and>
           (\<forall>j'. j + 1 \<le> j' \<and> j' \<le> m \<longrightarrow>
              cells ms' i j' = val_affine diag gopen ext seqA seqB ms' i j' (cells ?ms1 i j'))"
      using "1.prems" True by (intro "1.IH" [OF r0(1) lt c s1]) simp_all
    then obtain ms' where ex: "row_affine diag gopen ext seqA seqB i (j + 1) ?ms1 = Inr ms' \<and> shaped3 n m ms' \<and>
           (\<forall>i' j'. i' \<noteq> i \<or> j' < j + 1 \<longrightarrow> cells ms' i' j' = cells ?ms1 i' j') \<and>
           (\<forall>j'. j + 1 \<le> j' \<and> j' \<le> m \<longrightarrow>
              cells ms' i j' = val_affine diag gopen ext seqA seqB ms' i j' (cells ?ms1 i j'))" ..
    then have M': "row_affine diag gopen ext seqA seqB i (j + 1) ?ms1 = Inr ms'" "shaped3 n m ms'"
      "\<And>i' j'. i' \<noteq> i \<or> j' < j + 1 \<Longrightarrow> cells ms' i' j' = cells ?ms1 i' j'"
      "\<And>j'. j + 1 \<le> j' \<Longrightarrow> j' \<le> m \<Longrightarrow>
         cells ms' i j' = val_affine diag gopen ext seqA seqB ms' i j' (cells ?ms1 i j')"
      by auto
    have nth1: "\<And>i' j'. cells ?ms1 i' j' = (if i' = i \<and> j' = j then ?v else cells ms i' j')"
      using "1.prems" True by (intro cells_put3) simp_all
    have run: "row_affine diag gopen ext seqA seqB i j ms = Inr ms'"
      using r0 lt c M'(1) by (simp add: unfold)
    have frame: "\<And>i' j'. i' \<noteq> i \<or> j' < j \<Longrightarrow> cells ms' i' j' = cells ms i' j'"
    proof -
      fix i' j' assume h: "i' \<noteq> i \<or> j' < j"
      then have "cells ms' i' j' = cells ?ms1 i' j'" by (intro M'(3)) auto
      with h show "cells ms' i' j' = cells ms i' j'" by (auto simp: nth1)
    qed
    have here: "cells ms' i j = val_affine diag gopen ext seqA seqB ms' i j (cells ms i j)"
    proof -
      have "cells ms' i j = cells ?ms1 i j" by (intro M'(3)) simp
      also have "\<dots> = ?v" by (simp add: nth1)
      also have "\<dots> = val_affine diag gopen ext seqA seqB ms' i j (cells ms i j)"
        using "1.prems"(2,4) by (intro val_affine_cong [symmetric] frame) auto
      finally show ?thesis .
    qed
    have rec: "\<And>j'. j \<le> j' \<Longrightarrow> j' \<le> m \<Longrightarrow>
        cells ms' i j' = val_affine diag gopen ext seqA seqB ms' i j' (cells ms i j')"
    proof -
      fix j' assume j': "j \<le> j'" "j' \<le> m"
      show "cells ms' i j' = val_affine diag gopen ext seqA seqB ms' i j' (cells ms i j')"
      proof (cases "j' = j")
        case True
        with here show ?thesis by simp
      next
        case False
        with j' have "j + 1 \<le> j'" by simp
        from M'(4) [OF this j'(2)] False show ?thesis by (simp add: nth1)
      qed
    qed
    from run M'(2) frame rec show ?thesis by blast
  qed
qed

lemma rows_affine_shaped:
  assumes "shaped3 n m ms" "1 \<le> i" "i \<le> n + 1" "n \<le> length seqA" "m \<le> length seqB"
  shows "\<exists>ms'. rows_affine diag gopen ext seqA seqB i ms = Inr ms' \<and> shaped3 n m ms' \<and>
           (\<forall>i' j'. i' < i \<or> j' = 0 \<longrightarrow> cells ms' i' j' = cells ms i' j') \<and>
           (\<forall>i' j'. i \<le> i' \<and> i' \<le> n \<and> 1 \<le> j' \<and> j' \<le> m \<longrightarrow>
              cells ms' i' j' = val_affine diag gopen ext seqA seqB ms' i' j' (cells ms i' j'))"
  using assms
proof (induction diag gopen ext seqA seqB i ms rule: rows_affine.induct)
  case (1 diag gopen ext seqA seqB i ms)
  note unfold = rows_affine.simps [of diag gopen ext seqA seqB i ms]
  have len: "length (fst ms) = n + 1"
    using shaped3_fst [OF "1.prems"(1)] by (rule shaped_length)
  show ?case
  proof (cases "i \<le> n")
    case False
    with "1.prems" len show ?thesis by (auto simp: unfold)
  next
    case True
    with len have lt: "i < length (fst ms)" by simp
    have "\<exists>ms1. row_affine diag gopen ext seqA seqB i 1 ms = Inr ms1 \<and> shaped3 n m ms1 \<and>
           (\<forall>i' j'. i' \<noteq> i \<or> j' < 1 \<longrightarrow> cells ms1 i' j' = cells ms i' j') \<and>
           (\<forall>j'. 1 \<le> j' \<and> j' \<le> m \<longrightarrow>
              cells ms1 i j' = val_affine diag gopen ext seqA seqB ms1 i j' (cells ms i j'))"
      using "1.prems" True by (intro row_affine_shaped) simp_all
    then obtain ms1 where "row_affine diag gopen ext seqA seqB i 1 ms = Inr ms1 \<and> shaped3 n m ms1 \<and>
           (\<forall>i' j'. i' \<noteq> i \<or> j' < 1 \<longrightarrow> cells ms1 i' j' = cells ms i' j') \<and>
           (\<forall>j'. 1 \<le> j' \<and> j' \<le> m \<longrightarrow>
              cells ms1 i j' = val_affine diag gopen ext seqA seqB ms1 i j' (cells ms i j'))" ..
    then have M1: "row_affine diag gopen ext seqA seqB i 1 ms = Inr ms1" "shaped3 n m ms1"
      "\<And>i' j'. i' \<noteq> i \<or> j' < 1 \<Longrightarrow> cells ms1 i' j' = cells ms i' j'"
      "\<And>j'. 1 \<le> j' \<Longrightarrow> j' \<le> m \<Longrightarrow>
         cells ms1 i j' = val_affine diag gopen ext seqA seqB ms1 i j' (cells ms i j')"
      by auto
    have "\<exists>ms'. rows_affine diag gopen ext seqA seqB (i + 1) ms1 = Inr ms' \<and> shaped3 n m ms' \<and>
           (\<forall>i' j'. i' < i + 1 \<or> j' = 0 \<longrightarrow> cells ms' i' j' = cells ms1 i' j') \<and>
           (\<forall>i' j'. i + 1 \<le> i' \<and> i' \<le> n \<and> 1 \<le> j' \<and> j' \<le> m \<longrightarrow>
              cells ms' i' j' = val_affine diag gopen ext seqA seqB ms' i' j' (cells ms1 i' j'))"
      using "1.prems" True by (intro "1.IH" [OF lt M1(1) M1(2)]) simp_all
    then obtain ms' where "rows_affine diag gopen ext seqA seqB (i + 1) ms1 = Inr ms' \<and> shaped3 n m ms' \<and>
           (\<forall>i' j'. i' < i + 1 \<or> j' = 0 \<longrightarrow> cells ms' i' j' = cells ms1 i' j') \<and>
           (\<forall>i' j'. i + 1 \<le> i' \<and> i' \<le> n \<and> 1 \<le> j' \<and> j' \<le> m \<longrightarrow>
              cells ms' i' j' = val_affine diag gopen ext seqA seqB ms' i' j' (cells ms1 i' j'))" ..
    then have M': "rows_affine diag gopen ext seqA seqB (i + 1) ms1 = Inr ms'" "shaped3 n m ms'"
      "\<And>i' j'. i' < i + 1 \<or> j' = 0 \<Longrightarrow> cells ms' i' j' = cells ms1 i' j'"
      "\<And>i' j'. i + 1 \<le> i' \<Longrightarrow> i' \<le> n \<Longrightarrow> 1 \<le> j' \<Longrightarrow> j' \<le> m \<Longrightarrow>
         cells ms' i' j' = val_affine diag gopen ext seqA seqB ms' i' j' (cells ms1 i' j')"
      by auto
    have run: "rows_affine diag gopen ext seqA seqB i ms = Inr ms'"
      using lt M1(1) M'(1) by (simp add: unfold)
    have frame: "\<And>i' j'. i' < i \<or> j' = 0 \<Longrightarrow> cells ms' i' j' = cells ms i' j'"
    proof -
      fix i' j' :: nat assume h: "i' < i \<or> j' = 0"
      then have "cells ms' i' j' = cells ms1 i' j'" by (intro M'(3)) auto
      also from h have "\<dots> = cells ms i' j'" by (intro M1(3)) auto
      finally show "cells ms' i' j' = cells ms i' j'" .
    qed
    have here: "\<And>j'. 1 \<le> j' \<Longrightarrow> j' \<le> m \<Longrightarrow>
        cells ms' i j' = val_affine diag gopen ext seqA seqB ms' i j' (cells ms i j')"
    proof -
      fix j' assume j': "1 \<le> j'" "j' \<le> m"
      have "cells ms' i j' = cells ms1 i j'" by (intro M'(3)) simp
      also have "\<dots> = val_affine diag gopen ext seqA seqB ms1 i j' (cells ms i j')"
        using j' by (rule M1(4))
      also have "\<dots> = val_affine diag gopen ext seqA seqB ms' i j' (cells ms i j')"
        using "1.prems"(2) by (intro val_affine_cong [symmetric] M'(3)) auto
      finally show "cells ms' i j' = val_affine diag gopen ext seqA seqB ms' i j' (cells ms i j')" .
    qed
    have rec: "\<And>i' j'. i \<le> i' \<Longrightarrow> i' \<le> n \<Longrightarrow> 1 \<le> j' \<Longrightarrow> j' \<le> m \<Longrightarrow>
        cells ms' i' j' = val_affine diag gopen ext seqA seqB ms' i' j' (cells ms i' j')"
    proof -
      fix i' j' assume h: "i \<le> i'" "i' \<le> n" "1 \<le> j'" "j' \<le> m"
      show "cells ms' i' j' = val_affine diag gopen ext seqA seqB ms' i' j' (cells ms i' j')"
      proof (cases "i' = i")
        case True
        with here [OF h(3,4)] show ?thesis by simp
      next
        case False
        with h have "i + 1 \<le> i'" by simp
        from M'(4) [OF this h(2,3,4)] False M1(3) [of i' j'] show ?thesis by simp
      qed
    qed
    from run M'(2) frame rec show ?thesis by blast
  qed
qed

lemma shaped3_makeMatrix: "shaped3 n m (makeMatrix n m, makeMatrix n m, makeMatrix n m)"
  by (simp add: shaped3_def shaped_makeMatrix)

lemma cells_makeMatrix:
  "i \<le> n \<Longrightarrow> j \<le> m \<Longrightarrow> cells (makeMatrix n m, makeMatrix n m, makeMatrix n m) i j = (0, 0, 0)"
  by (simp add: cells_def makeMatrix_nth)

text \<open>What affine's \<open>populate\<close> leaves in the three matrices that \<open>main\<close> hands it.\<close>

lemma populate_affine_makeMatrix:
  assumes "n \<le> length seqA" "m \<le> length seqB"
  shows "\<exists>ms. populate_affine diag gopen ext (makeMatrix n m) (makeMatrix n m) (makeMatrix n m) seqA seqB = Inr ms \<and>
           shaped3 n m ms \<and>
           (\<forall>j \<le> m. cells ms 0 j = (0, 0, 0)) \<and> (\<forall>i \<le> n. cells ms i 0 = (0, 0, 0)) \<and>
           (\<forall>i j. 1 \<le> i \<and> i \<le> n \<and> 1 \<le> j \<and> j \<le> m \<longrightarrow>
              cells ms i j = val_affine diag gopen ext seqA seqB ms i j (0, 0, 0))"
proof -
  let ?z = "(makeMatrix n m, makeMatrix n m, makeMatrix n m)"
  have "\<exists>ms. rows_affine diag gopen ext seqA seqB 1 ?z = Inr ms \<and> shaped3 n m ms \<and>
           (\<forall>i' j'. i' < 1 \<or> j' = 0 \<longrightarrow> cells ms i' j' = cells ?z i' j') \<and>
           (\<forall>i' j'. 1 \<le> i' \<and> i' \<le> n \<and> 1 \<le> j' \<and> j' \<le> m \<longrightarrow>
              cells ms i' j' = val_affine diag gopen ext seqA seqB ms i' j' (cells ?z i' j'))"
    using assms by (intro rows_affine_shaped shaped3_makeMatrix) simp_all
  then obtain ms where "rows_affine diag gopen ext seqA seqB 1 ?z = Inr ms \<and> shaped3 n m ms \<and>
           (\<forall>i' j'. i' < 1 \<or> j' = 0 \<longrightarrow> cells ms i' j' = cells ?z i' j') \<and>
           (\<forall>i' j'. 1 \<le> i' \<and> i' \<le> n \<and> 1 \<le> j' \<and> j' \<le> m \<longrightarrow>
              cells ms i' j' = val_affine diag gopen ext seqA seqB ms i' j' (cells ?z i' j'))" ..
  then have R: "rows_affine diag gopen ext seqA seqB 1 ?z = Inr ms" "shaped3 n m ms"
    "\<And>i' j'. i' < 1 \<or> j' = 0 \<Longrightarrow> cells ms i' j' = cells ?z i' j'"
    "\<And>i' j'. 1 \<le> i' \<Longrightarrow> i' \<le> n \<Longrightarrow> 1 \<le> j' \<Longrightarrow> j' \<le> m \<Longrightarrow>
       cells ms i' j' = val_affine diag gopen ext seqA seqB ms i' j' (cells ?z i' j')"
    by auto
  have "\<forall>j \<le> m. cells ms 0 j = (0, 0, 0)" using R(3) [of 0] by (simp add: cells_makeMatrix)
  moreover have "\<forall>i \<le> n. cells ms i 0 = (0, 0, 0)" using R(3) [of _ 0] by (simp add: cells_makeMatrix)
  moreover have "\<forall>i j. 1 \<le> i \<and> i \<le> n \<and> 1 \<le> j \<and> j \<le> m \<longrightarrow>
      cells ms i j = val_affine diag gopen ext seqA seqB ms i j (0, 0, 0)"
    using R(4) by (simp add: cells_makeMatrix)
  ultimately show ?thesis using R(1,2) by (auto simp: populate_affine_def)
qed

subsection \<open>What sums computes on a matrix of a fixed shape\<close>

lemma sums_row_shaped:
  assumes "shaped n m M" "i \<le> n" "i \<le> j" "length acc = m + 1"
  shows "\<exists>acc'. sums_row i j M acc = Inr acc' \<and> length acc' = m + 1 \<and>
           (\<forall>d. acc' ! d = acc ! d + (if j \<le> i + d \<and> i + d \<le> m then M ! i ! (i + d) else 0))"
  using assms
proof (induction i j M acc rule: sums_row.induct)
  case (1 i j M acc)
  note unfold = sums_row.simps [of i j M acc]
  have r0: "at M 0 = Inr (M ! 0)" "length (M ! 0) = m + 1"
    using "1.prems"(1) by (simp_all add: at_def shaped_length shaped_row)
  show ?case
  proof (cases "j \<le> m")
    case False
    with "1.prems" r0 show ?thesis by (auto simp: unfold)
  next
    case True
    with r0 have lt: "j < length (M ! 0)" by simp
    have o: "at acc (j - i) = Inr (acc ! (j - i))"
      using True "1.prems" by (simp add: at_def)
    have g: "get2 M i j = Inr (M ! i ! j)"
      using "1.prems" True by (intro get2_shaped) simp_all
    let ?acc1 = "acc[j - i := acc ! (j - i) + M ! i ! j]"
    have "\<exists>acc'. sums_row i (j + 1) M ?acc1 = Inr acc' \<and> length acc' = m + 1 \<and>
           (\<forall>d. acc' ! d = ?acc1 ! d + (if j + 1 \<le> i + d \<and> i + d \<le> m then M ! i ! (i + d) else 0))"
      using "1.prems" by (intro "1.IH" [OF r0(1) lt o g]) simp_all
    then obtain acc' where a: "sums_row i (j + 1) M ?acc1 = Inr acc'" "length acc' = m + 1"
      "\<And>d. acc' ! d = ?acc1 ! d + (if j + 1 \<le> i + d \<and> i + d \<le> m then M ! i ! (i + d) else 0)"
      by blast
    have run: "sums_row i j M acc = Inr acc'"
      using r0 lt o g a(1) by (simp add: unfold)
    have "acc' ! d = acc ! d + (if j \<le> i + d \<and> i + d \<le> m then M ! i ! (i + d) else 0)" for d
    proof (cases "d = j - i")
      case True
      with "1.prems"(3) have e: "i + d = j" by simp
      have "j - i < length acc" using \<open>j \<le> m\<close> "1.prems" by simp
      then show ?thesis using a(3) [of d] True e \<open>j \<le> m\<close> by simp
    next
      case False
      with "1.prems"(3) have "i + d \<noteq> j" by auto
      then show ?thesis using a(3) [of d] False by auto
    qed
    with run a(2) show ?thesis by blast
  qed
qed

definition diag_cells :: "nat \<Rightarrow> nat \<Rightarrow> nat \<Rightarrow> nat \<Rightarrow> nat set" where
  "diag_cells n m i d = {i'. i \<le> i' \<and> i' \<le> n \<and> i' + d \<le> m}"

lemma diag_cells_step:
  "diag_cells n m i d =
     (if i \<le> n \<and> i + d \<le> m then insert i (diag_cells n m (i + 1) d) else diag_cells n m (i + 1) d)"
  by (auto simp: diag_cells_def)

lemma finite_diag_cells: "finite (diag_cells n m i d)"
  by (rule finite_subset [of _ "{..n}"]) (auto simp: diag_cells_def)

lemma sums_rows_shaped:
  assumes "shaped n m M" "i \<le> n + 1" "length acc = m + 1"
  shows "\<exists>acc'. sums_rows i M acc = Inr acc' \<and> length acc' = m + 1 \<and>
           (\<forall>d. acc' ! d = acc ! d + (\<Sum>i' \<in> diag_cells n m i d. M ! i' ! (i' + d)))"
  using assms
proof (induction i M acc rule: sums_rows.induct)
  case (1 i M acc)
  note unfold = sums_rows.simps [of i M acc]
  have len: "length M = n + 1" using "1.prems"(1) by (rule shaped_length)
  show ?case
  proof (cases "i \<le> n")
    case False
    then have "diag_cells n m i d = {}" for d by (auto simp: diag_cells_def)
    with False "1.prems" len show ?thesis by (auto simp: unfold)
  next
    case True
    with len have lt: "i < length M" by simp
    have "\<exists>acc1. sums_row i i M acc = Inr acc1 \<and> length acc1 = m + 1 \<and>
           (\<forall>d. acc1 ! d = acc ! d + (if i \<le> i + d \<and> i + d \<le> m then M ! i ! (i + d) else 0))"
      using "1.prems" True by (intro sums_row_shaped) simp_all
    then obtain acc1 where a1: "sums_row i i M acc = Inr acc1" "length acc1 = m + 1"
      "\<And>d. acc1 ! d = acc ! d + (if i \<le> i + d \<and> i + d \<le> m then M ! i ! (i + d) else 0)"
      by blast
    have "\<exists>acc'. sums_rows (i + 1) M acc1 = Inr acc' \<and> length acc' = m + 1 \<and>
           (\<forall>d. acc' ! d = acc1 ! d + (\<Sum>i' \<in> diag_cells n m (i + 1) d. M ! i' ! (i' + d)))"
      using "1.prems" True a1(2) by (intro "1.IH" [OF lt a1(1)]) simp_all
    then obtain acc' where a: "sums_rows (i + 1) M acc1 = Inr acc'" "length acc' = m + 1"
      "\<And>d. acc' ! d = acc1 ! d + (\<Sum>i' \<in> diag_cells n m (i + 1) d. M ! i' ! (i' + d))"
      by blast
    have run: "sums_rows i M acc = Inr acc'"
      using lt a1(1) a(1) by (simp add: unfold)
    have "acc' ! d = acc ! d + (\<Sum>i' \<in> diag_cells n m i d. M ! i' ! (i' + d))" for d
    proof (cases "i + d \<le> m")
      case le: True
      have ni: "i \<notin> diag_cells n m (i + 1) d" by (simp add: diag_cells_def)
      have "diag_cells n m i d = insert i (diag_cells n m (i + 1) d)"
        using True le by (subst diag_cells_step) simp
      then have "(\<Sum>i' \<in> diag_cells n m i d. M ! i' ! (i' + d)) =
          M ! i ! (i + d) + (\<Sum>i' \<in> diag_cells n m (i + 1) d. M ! i' ! (i' + d))"
        using ni finite_diag_cells by simp
      then show ?thesis using a(3) [of d] a1(3) [of d] le by (simp add: add.assoc)
    next
      case False
      then have "diag_cells n m i d = diag_cells n m (i + 1) d"
        by (subst diag_cells_step) simp
      then show ?thesis using a(3) [of d] a1(3) [of d] False by simp
    qed
    with run a(2) show ?thesis by blast
  qed
qed

lemma sums_shaped:
  assumes "shaped n m M"
  shows "\<exists>prof. sums M = Inr prof \<and> length prof = m + 1 \<and>
           (\<forall>d \<le> m. prof ! d = (\<Sum>i \<in> diag_cells n m 0 d. M ! i ! (i + d)))"
proof -
  have r0: "at M 0 = Inr (M ! 0)" "length (M ! 0) = m + 1"
    using assms by (simp_all add: at_def shaped_length shaped_row)
  have "\<exists>acc'. sums_rows 0 M (replicate (m + 1) 0) = Inr acc' \<and> length acc' = m + 1 \<and>
           (\<forall>d. acc' ! d = replicate (m + 1) 0 ! d + (\<Sum>i' \<in> diag_cells n m 0 d. M ! i' ! (i' + d)))"
    using assms by (intro sums_rows_shaped) simp_all
  then obtain prof where p: "sums_rows 0 M (replicate (m + 1) 0) = Inr prof" "length prof = m + 1"
    "\<And>d. prof ! d = replicate (m + 1) 0 ! d + (\<Sum>i' \<in> diag_cells n m 0 d. M ! i' ! (i' + d))"
    by blast
  have "prof ! d = (\<Sum>i \<in> diag_cells n m 0 d. M ! i ! (i + d))" if "d \<le> m" for d
  proof -
    from that have "replicate (m + 1) (0 :: goint) ! d = 0" by (intro nth_replicate) simp
    with p(3) [of d] show ?thesis by simp
  qed
  with p(1,2) r0 show ?thesis by (auto simp: sums_def)
qed

lemma diag_cells_0: "diag_cells n m 0 d = {i. i \<le> n \<and> i + d \<le> m}"
  by (simp add: diag_cells_def)

text \<open>The cell-wise sum of two matrices.\<close>

definition cellwise_sum :: "matrix \<Rightarrow> matrix \<Rightarrow> matrix" where
  "cellwise_sum A B = map2 (map2 (+)) A B"

lemma cellwise_sum_shaped:
  assumes "shaped n m A" "shaped n m B"
  shows "shaped n m (cellwise_sum A B)"
    and "i \<le> n \<Longrightarrow> j \<le> m \<Longrightarrow> cellwise_sum A B ! i ! j = A ! i ! j + B ! i ! j"
proof -
  have len: "length A = n + 1" "length B = n + 1"
    using assms by (simp_all add: shaped_length)
  have row: "\<And>i. i \<le> n \<Longrightarrow> length (A ! i) = m + 1 \<and> length (B ! i) = m + 1"
    using assms by (simp add: shaped_row)
  have "map length (cellwise_sum A B) = replicate (n + 1) (m + 1)"
  proof (rule nth_equalityI)
    show "length (map length (cellwise_sum A B)) = length (replicate (n + 1) (m + 1))"
      using len by (simp add: cellwise_sum_def)
  next
    fix i assume "i < length (map length (cellwise_sum A B))"
    then have i: "i \<le> n" using len by (simp add: cellwise_sum_def)
    then have "map length (cellwise_sum A B) ! i = m + 1"
      using len row [OF i] by (simp add: cellwise_sum_def)
    moreover have "replicate (n + 1) (m + 1) ! i = m + 1" using i by (intro nth_replicate) simp
    ultimately show "map length (cellwise_sum A B) ! i = replicate (n + 1) (m + 1) ! i" by simp
  qed
  then show "shaped n m (cellwise_sum A B)" by (simp only: shaped_def)
  show "cellwise_sum A B ! i ! j = A ! i ! j + B ! i ! j" if "i \<le> n" "j \<le> m"
    using that len row [OF that(1)] by (simp add: cellwise_sum_def)
qed

subsection \<open>Runs on files without records\<close>

lemma main_const_no_records:
  "readFasta fs (gonk_a gf) = Inr [] \<Longrightarrow> gonk_a gf \<noteq> [] \<Longrightarrow> gonk_b gf \<noteq> [] \<Longrightarrow>
   main_const gf fs cc = Inl IndexOutOfRange"
  "readFasta fs (gonk_a gf) = Inr (r # rs) \<Longrightarrow> readFasta fs (gonk_b gf) = Inr [] \<Longrightarrow>
   gonk_a gf \<noteq> [] \<Longrightarrow> gonk_b gf \<noteq> [] \<Longrightarrow> main_const gf fs cc = Inl IndexOutOfRange"
  by (simp_all add: main_const_def ebind_def at_def)

lemma main_affine_no_records:
  "fasta_reader fs (affine_a af) = Inr [] \<Longrightarrow> affine_a af \<noteq> [] \<Longrightarrow> affine_b af \<noteq> [] \<Longrightarrow>
   main_affine af fs cc = Inl IndexOutOfRange"
  "fasta_reader fs (affine_a af) = Inr (r # rs) \<Longrightarrow> fasta_reader fs (affine_b af) = Inr [] \<Longrightarrow>
   affine_a af \<noteq> [] \<Longrightarrow> affine_b af \<noteq> [] \<Longrightarrow> main_affine af fs cc = Inl IndexOutOfRange"
  by (simp_all add: main_affine_def ebind_def at_def)

lemma main_const_fails:
  assumes "readFasta fs (gonk_a gf) = Inr [] \<or> readFasta fs (gonk_b gf) = Inr []"
  shows "\<exists>e. main_const gf fs cc = Inl e"
proof (cases "gonk_a gf = [] \<or> gonk_b gf = []")
  case True
  then show ?thesis by (auto simp: main_const_def)
next
  case False
  show ?thesis
  proof (cases "readFasta fs (gonk_a gf)")
    case (Inl e)
    with False show ?thesis by (simp add: main_const_def ebind_def)
  next
    case (Inr recs)
    show ?thesis
    proof (cases recs)
      case Nil
      with Inr False show ?thesis by (simp add: main_const_no_records(1))
    next
      case (Cons r rs)
      with Inr assms have "readFasta fs (gonk_b gf) = Inr []" by simp
      with Inr Cons False show ?thesis by (simp add: main_const_no_records(2))
    qed
  qed
qed

lemma main_affine_fails:
  assumes "fasta_reader fs (affine_a af) = Inr [] \<or> fasta_reader fs (affine_b af) = Inr []"
  shows "\<exists>e. main_affine af fs cc = Inl e"
proof (cases "affine_a af = [] \<or> affine_b af = []")
  case True
  then show ?thesis by (auto simp: main_affine_def)
next
  case False
  show ?thesis
  proof (cases "fasta_reader fs (affine_a af)")
    case (Inl e)
    with False show ?thesis by (simp add: main_affine_def ebind_def)
  next
    case (Inr recs)
    show ?thesis
    proof (cases recs)
      case Nil
      with Inr False show ?thesis by (simp add: main_affine_no_records(1))
    next
      case (Cons r rs)
      with Inr assms have "fasta_reader fs (affine_b af) = Inr []" by simp
      with Inr Cons False show ?thesis by (simp add: main_affine_no_records(2))
    qed
  qed
qed

subsection \<open>The last line of a file\<close>

text \<open>
  A file ends its last line when it is empty or its last byte is a newline. \<open>fits\<close>: no
  run of bytes without a newline reaches the scanner's token size.
\<close>

definition terminated :: "string \<Rightarrow> bool" where
  "terminated input = (input = [] \<or> last input = newline)"

definition fits :: "string \<Rightarrow> bool" where
  "fits input =
     list_all (\<lambda>i. length (takeWhile (\<lambda>c. c \<noteq> newline) (drop i input)) < maxScanTokenSize)
       [0..<length input + 1]"

lemma fits_head: "fits input \<Longrightarrow> length (takeWhile (\<lambda>c. c \<noteq> newline) input) < maxScanTokenSize"
proof -
  assume "fits input"
  then have "\<forall>i \<in> set [0..<length input + 1].
      length (takeWhile (\<lambda>c. c \<noteq> newline) (drop i input)) < maxScanTokenSize"
    by (simp only: fits_def list_all_iff)
  moreover have "0 \<in> set [0..<length input + 1]" by simp
  ultimately have "length (takeWhile (\<lambda>c. c \<noteq> newline) (drop 0 input)) < maxScanTokenSize"
    by (rule bspec)
  then show ?thesis by simp
qed

lemma length_takeWhile_lt: "x \<in> set xs \<Longrightarrow> \<not> P x \<Longrightarrow> length (takeWhile P xs) < length xs"
  by (induction xs) auto

lemma fits_drop: "fits input \<Longrightarrow> fits (drop k input)"
proof -
  assume f: "fits input"
  have "length (takeWhile (\<lambda>c. c \<noteq> newline) (drop i (drop k input))) < maxScanTokenSize" for i
  proof (cases "i + k \<le> length input")
    case True
    from f have "\<forall>i \<in> set [0..<length input + 1].
        length (takeWhile (\<lambda>c. c \<noteq> newline) (drop i input)) < maxScanTokenSize"
      by (simp only: fits_def list_all_iff)
    moreover from True have "i + k \<in> set [0..<length input + 1]" by (simp del: upt_Suc)
    ultimately have "length (takeWhile (\<lambda>c. c \<noteq> newline) (drop (i + k) input)) < maxScanTokenSize"
      by (rule bspec)
    then show ?thesis by simp
  next
    case False
    then have "drop i (drop k input) = []" by simp
    then show ?thesis by (simp add: maxScanTokenSize_def)
  qed
  then show ?thesis by (simp only: fits_def list_all_iff) blast
qed

lemma takeWhile_no_newline:
  "newline \<notin> set xs \<Longrightarrow> takeWhile (\<lambda>c. c \<noteq> newline) xs = xs"
  "newline \<notin> set xs \<Longrightarrow> takeWhile (\<lambda>c. c \<noteq> newline) (xs @ [newline]) = xs"
  by (induction xs) auto

lemma split_at_newline:
  assumes "newline \<in> set pre"
  shows "takeWhile (\<lambda>c. c \<noteq> newline) (pre @ l) = takeWhile (\<lambda>c. c \<noteq> newline) pre"
    and "drop (length (takeWhile (\<lambda>c. c \<noteq> newline) pre) + 1) (pre @ l) =
         drop (length (takeWhile (\<lambda>c. c \<noteq> newline) pre) + 1) pre @ l"
    and "terminated pre \<Longrightarrow> terminated (drop (length (takeWhile (\<lambda>c. c \<noteq> newline) pre) + 1) pre)"
proof -
  let ?t = "takeWhile (\<lambda>c. c \<noteq> newline) pre"
  show "takeWhile (\<lambda>c. c \<noteq> newline) (pre @ l) = ?t"
    using assms by (intro takeWhile_append1 [of newline]) simp_all
  have lt: "length ?t < length pre"
    using assms by (intro length_takeWhile_lt [of newline]) simp_all
  then show "drop (length ?t + 1) (pre @ l) = drop (length ?t + 1) pre @ l" by simp
  show "terminated (drop (length ?t + 1) pre)" if "terminated pre"
  proof (cases "drop (length ?t + 1) pre = []")
    case True
    then show ?thesis by (simp add: terminated_def)
  next
    case False
    then have "length ?t + 1 < length pre" by simp
    then have "last (drop (length ?t + 1) pre) = last pre" by (rule last_drop)
    moreover from assms have "pre \<noteq> []" by auto
    ultimately show ?thesis using that by (simp add: terminated_def)
  qed
qed

lemma terminated_nonempty: "terminated pre \<Longrightarrow> pre \<noteq> [] \<Longrightarrow> newline \<in> set pre"
  using last_in_set [of pre] by (auto simp: terminated_def)

lemma readFasta_loop_end: "newline \<notin> set input \<Longrightarrow> readFasta_loop input seqs = Inr seqs"
  by (subst readFasta_loop.simps) simp

lemma readFasta_loop_step:
  "newline \<in> set input \<Longrightarrow>
   readFasta_loop input seqs =
     ebind (add_line (takeWhile (\<lambda>c. c \<noteq> newline) input) seqs)
       (readFasta_loop (drop (length (takeWhile (\<lambda>c. c \<noteq> newline) input) + 1) input))"
  by (subst readFasta_loop.simps) (simp add: Let_def ebind_def)

lemma readFasta_loop_drops_last:
  "terminated pre \<Longrightarrow> newline \<notin> set l \<Longrightarrow> readFasta_loop (pre @ l) seqs = readFasta_loop pre seqs"
proof (induction pre seqs rule: readFasta_loop.induct)
  case (1 pre seqs)
  show ?case
  proof (cases "newline \<in> set pre")
    case False
    with "1.prems" have "pre = []" using terminated_nonempty by blast
    with "1.prems" show ?thesis by (simp add: readFasta_loop_end)
  next
    case True
    note sp = split_at_newline(1,2) [OF True, of l] split_at_newline(3) [OF True]
    let ?t = "takeWhile (\<lambda>c. c \<noteq> newline) pre"
    let ?r = "drop (length ?t + 1) pre"
    have L: "readFasta_loop (pre @ l) seqs = ebind (add_line ?t seqs) (readFasta_loop (?r @ l))"
      using readFasta_loop_step [of "pre @ l" seqs] True unfolding sp(1,2) by simp
    have R: "readFasta_loop pre seqs = ebind (add_line ?t seqs) (readFasta_loop ?r)"
      using True by (rule readFasta_loop_step)
    show ?thesis
    proof (cases "add_line ?t seqs")
      case (Inl e)
      then show ?thesis by (simp only: L R ebind_def sum.case)
    next
      case (Inr seqs')
      have "readFasta_loop (?r @ l) seqs' = readFasta_loop ?r seqs'"
        using True Inr "1.prems" sp(3) by (intro "1.IH") simp_all
      with Inr show ?thesis by (simp only: L R ebind_def sum.case)
    qed
  qed
qed

lemma readFasta_loop_last_line:
  "terminated pre \<Longrightarrow> newline \<notin> set l \<Longrightarrow>
   readFasta_loop (pre @ l @ [newline]) seqs = ebind (readFasta_loop pre seqs) (add_line l)"
proof (induction pre seqs rule: readFasta_loop.induct)
  case (1 pre seqs)
  show ?case
  proof (cases "newline \<in> set pre")
    case False
    with "1.prems" have e: "pre = []" using terminated_nonempty by blast
    have t: "takeWhile (\<lambda>c. c \<noteq> newline) (l @ [newline]) = l"
      using "1.prems"(2) by (rule takeWhile_no_newline)
    have "readFasta_loop (l @ [newline]) seqs = ebind (add_line l seqs) (readFasta_loop [])"
      using readFasta_loop_step [of "l @ [newline]" seqs] unfolding t by simp
    also have "\<dots> = ebind (Inr seqs) (add_line l)"
      by (simp add: ebind_def readFasta_loop_end split: sum.splits)
    finally show ?thesis using e by (simp add: readFasta_loop_end)
  next
    case True
    note sp = split_at_newline(1,2) [OF True, of "l @ [newline]"] split_at_newline(3) [OF True]
    let ?t = "takeWhile (\<lambda>c. c \<noteq> newline) pre"
    let ?r = "drop (length ?t + 1) pre"
    have L: "readFasta_loop (pre @ l @ [newline]) seqs =
        ebind (add_line ?t seqs) (readFasta_loop (?r @ l @ [newline]))"
      using readFasta_loop_step [of "pre @ l @ [newline]" seqs] True unfolding sp(1,2) by simp
    have R: "readFasta_loop pre seqs = ebind (add_line ?t seqs) (readFasta_loop ?r)"
      using True by (rule readFasta_loop_step)
    show ?thesis
    proof (cases "add_line ?t seqs")
      case (Inl e)
      then show ?thesis by (simp only: L R ebind_def sum.case)
    next
      case (Inr seqs')
      have "readFasta_loop (?r @ l @ [newline]) seqs' = ebind (readFasta_loop ?r seqs') (add_line l)"
        using True Inr "1.prems" sp(3) by (intro "1.IH") simp_all
      with Inr show ?thesis by (simp only: L R ebind_def sum.case)
    qed
  qed
qed

lemma scan_end: "scan [] = None"
  by (simp add: scan_def)

lemma scan_line:
  "input \<noteq> [] \<Longrightarrow> length (takeWhile (\<lambda>c. c \<noteq> newline) input) < maxScanTokenSize \<Longrightarrow>
   scan input = Some (dropCR (takeWhile (\<lambda>c. c \<noteq> newline) input),
                      drop (length (takeWhile (\<lambda>c. c \<noteq> newline) input) + 1) input)"
  by (simp add: scan_def Let_def)

lemma scan_too_long:
  "maxScanTokenSize \<le> length (takeWhile (\<lambda>c. c \<noteq> newline) input) \<Longrightarrow> scan input = None"
  by (simp add: scan_def Let_def)

lemma fasta_reader_loop_end: "scan input = None \<Longrightarrow> fasta_reader_loop input seqs = Inr seqs"
  by (subst fasta_reader_loop.simps) simp

lemma fasta_reader_loop_step:
  "scan input = Some (line, rest) \<Longrightarrow>
   fasta_reader_loop input seqs = ebind (add_line line seqs) (fasta_reader_loop rest)"
  by (subst fasta_reader_loop.simps) (simp add: ebind_def)

lemma takeWhile_snoc_newline:
  "input \<noteq> [] \<Longrightarrow> takeWhile (\<lambda>c. c \<noteq> newline) (input @ [newline]) = takeWhile (\<lambda>c. c \<noteq> newline) input"
proof (cases "newline \<in> set input")
  case True
  then show ?thesis by (intro takeWhile_append1 [of newline]) simp_all
next
  case False
  from takeWhile_no_newline [OF False] show ?thesis by (simp only:)
qed

lemma fasta_reader_loop_newline:
  "fasta_reader_loop (input @ [newline]) seqs = fasta_reader_loop input seqs"
proof (induction input seqs rule: fasta_reader_loop.induct)
  case (1 input seqs)
  let ?t = "takeWhile (\<lambda>c. c \<noteq> newline) input"
  show ?case
  proof (cases "input = []")
    case True
    have "scan [newline] = Some ([], [])"
      by (simp add: scan_def dropCR_def maxScanTokenSize_def)
    then have "fasta_reader_loop [newline] seqs = ebind (add_line [] seqs) (fasta_reader_loop [])"
      by (rule fasta_reader_loop_step)
    then show ?thesis using True
      by (simp add: add_line_def ebind_def fasta_reader_loop_end scan_end)
  next
    case ne: False
    note tw = takeWhile_snoc_newline [OF ne]
    show ?thesis
    proof (cases "length ?t < maxScanTokenSize")
      case False
      then have "scan input = None" "scan (input @ [newline]) = None"
        by (simp_all add: scan_too_long tw)
      then show ?thesis by (simp add: fasta_reader_loop_end)
    next
      case True
      let ?r = "drop (length ?t + 1) input"
      have s1: "scan input = Some (dropCR ?t, ?r)" using ne True by (rule scan_line)
      have s2: "scan (input @ [newline]) = Some (dropCR ?t, drop (length ?t + 1) (input @ [newline]))"
        using scan_line [of "input @ [newline]"] True unfolding tw by simp
      have R: "fasta_reader_loop input seqs = ebind (add_line (dropCR ?t) seqs) (fasta_reader_loop ?r)"
        using s1 by (rule fasta_reader_loop_step)
      have L: "fasta_reader_loop (input @ [newline]) seqs =
          ebind (add_line (dropCR ?t) seqs) (fasta_reader_loop (drop (length ?t + 1) (input @ [newline])))"
        using s2 by (rule fasta_reader_loop_step)
      show ?thesis
      proof (cases "add_line (dropCR ?t) seqs")
        case (Inl e)
        then show ?thesis by (simp only: L R ebind_def sum.case)
      next
        case (Inr seqs')
        have ih: "fasta_reader_loop (?r @ [newline]) seqs' = fasta_reader_loop ?r seqs'"
          using s1 Inr by (intro "1.IH" [of "(dropCR ?t, ?r)"]) simp_all
        have "fasta_reader_loop (drop (length ?t + 1) (input @ [newline])) seqs' =
              fasta_reader_loop ?r seqs'"
        proof (cases "newline \<in> set input")
          case True
          from split_at_newline(2) [OF True, of "[newline]"] ih show ?thesis by simp
        next
          case False
          then have e: "?t = input" by (rule takeWhile_no_newline)
          have "drop (length input + 1) (input @ [newline]) = []" "drop (length input + 1) input = []"
            by simp_all
          then show ?thesis by (simp only: e)
        qed
        with Inr show ?thesis by (simp only: L R ebind_def sum.case)
      qed
    qed
  qed
qed

lemma fasta_reader_loop_keeps_last:
  "terminated pre \<Longrightarrow> newline \<notin> set l \<Longrightarrow> fits (pre @ l) \<Longrightarrow>
   fasta_reader_loop (pre @ l) seqs = ebind (fasta_reader_loop pre seqs) (add_line (dropCR l))"
proof (induction pre seqs rule: fasta_reader_loop.induct)
  case (1 pre seqs)
  show ?case
  proof (cases "pre = []")
    case True
    show ?thesis
    proof (cases "l = []")
      case l: True
      with True show ?thesis
        by (simp add: fasta_reader_loop_end scan_end ebind_def dropCR_def add_line_def)
    next
      case l: False
      have t: "takeWhile (\<lambda>c. c \<noteq> newline) l = l"
        using "1.prems"(2) by (rule takeWhile_no_newline)
      have "length l < maxScanTokenSize" using fits_head [OF "1.prems"(3)] True t by simp
      then have "scan l = Some (dropCR l, [])" using scan_line [OF l] t by simp
      then have "fasta_reader_loop l seqs = ebind (add_line (dropCR l) seqs) (fasta_reader_loop [])"
        by (rule fasta_reader_loop_step)
      also have "\<dots> = add_line (dropCR l) seqs"
        by (simp add: ebind_def fasta_reader_loop_end scan_end split: sum.splits)
      finally show ?thesis using True
        by (simp add: fasta_reader_loop_end scan_end ebind_def)
    qed
  next
    case ne: False
    with "1.prems"(1) have nl: "newline \<in> set pre" by (rule terminated_nonempty)
    note sp = split_at_newline(1,2) [OF nl, of l] split_at_newline(3) [OF nl]
    let ?t = "takeWhile (\<lambda>c. c \<noteq> newline) pre"
    let ?r = "drop (length ?t + 1) pre"
    have lt: "length ?t < maxScanTokenSize" using fits_head [OF "1.prems"(3)] sp(1) by simp
    have s1: "scan pre = Some (dropCR ?t, ?r)" using ne lt by (rule scan_line)
    have s2: "scan (pre @ l) = Some (dropCR ?t, ?r @ l)"
      using scan_line [of "pre @ l"] ne lt unfolding sp(1,2) by simp
    have R: "fasta_reader_loop pre seqs = ebind (add_line (dropCR ?t) seqs) (fasta_reader_loop ?r)"
      using s1 by (rule fasta_reader_loop_step)
    have L: "fasta_reader_loop (pre @ l) seqs =
        ebind (add_line (dropCR ?t) seqs) (fasta_reader_loop (?r @ l))"
      using s2 by (rule fasta_reader_loop_step)
    show ?thesis
    proof (cases "add_line (dropCR ?t) seqs")
      case (Inl e)
      then show ?thesis by (simp only: L R ebind_def sum.case)
    next
      case (Inr seqs')
      have f: "fits (?r @ l)" using fits_drop [OF "1.prems"(3), of "length ?t + 1"] sp(2) by simp
      have "fasta_reader_loop (?r @ l) seqs' =
            ebind (fasta_reader_loop ?r seqs') (add_line (dropCR l))"
        using s1 Inr "1.prems"(1,2) sp(3) f by (intro "1.IH" [of "(dropCR ?t, ?r)"]) simp_all
      with Inr show ?thesis by (simp only: L R ebind_def sum.case)
    qed
  qed
qed

lemma add_line_sequence:
  "line \<noteq> [] \<Longrightarrow> hd line \<noteq> CHR ''>'' \<Longrightarrow> seqs \<noteq> [] \<Longrightarrow>
   add_line line seqs = Inr (butlast seqs @ [add_seq (last seqs) line])"
proof -
  assume a: "line \<noteq> []" "hd line \<noteq> CHR ''>''" "seqs \<noteq> []"
  then have "seqs[length seqs - 1 := add_seq (seqs ! (length seqs - 1)) line] =
      butlast seqs @ [add_seq (last seqs) line]"
    by (induction seqs rule: rev_induct) (simp_all add: nth_append)
  with a show ?thesis by (simp add: add_line_def)
qed

lemma fits_short: "length input < maxScanTokenSize \<Longrightarrow> fits input"
proof -
  assume a: "length input < maxScanTokenSize"
  have "length (takeWhile (\<lambda>c. c \<noteq> newline) (drop i input)) < maxScanTokenSize" for i
  proof -
    have "length (takeWhile (\<lambda>c. c \<noteq> newline) (drop i input)) \<le> length (drop i input)"
      by (rule length_takeWhile_le)
    also have "\<dots> \<le> length input" by simp
    finally show ?thesis using a by simp
  qed
  then show ?thesis by (simp only: fits_def list_all_iff) blast
qed

lemma hd_dropCR: "dropCR l \<noteq> [] \<Longrightarrow> hd (dropCR l) = hd l"
  by (cases l) (auto simp: dropCR_def split: if_splits)

subsection \<open>The signed maximum\<close>

text \<open>
  The maximum of two Go integers under the signed order, and what the loop of
  \<open>maxScore\<close> computes in terms of it.
\<close>

definition smax :: "goint \<Rightarrow> goint \<Rightarrow> goint" where
  "smax a b = (if a \<le>s b then b else a)"

lemma goint_eq_sint: "(a :: goint) = b \<longleftrightarrow> sint a = sint b"
  by (auto intro: signed_word_eqI)

lemma maxScore_const_smax: "maxScore_const [x, y, z, 0] = smax 0 (smax x (smax y z))"
  by (auto simp: maxScore_const_def smax_def word_sless_alt word_sle_eq goint_eq_sint)

lemma smax_ge0: "0 \<le>s smax 0 x"
  by (auto simp: smax_def word_sle_eq)

lemma maxScore_affine_smax: "maxScore_affine [x, y, z] = smax 0 (smax x (smax y z))"
  by (auto simp: maxScore_affine_def smax_def word_sless_alt word_sle_eq goint_eq_sint)

lemma maxScore_affine_ge0: "0 \<le>s maxScore_affine [x, y, z]"
  by (auto simp: maxScore_affine_def word_sless_alt word_sle_eq)

lemma smax_0_absorb: "0 \<le>s x \<Longrightarrow> smax 0 (smax x y) = smax x y"
  by (auto simp: smax_def word_sle_eq)

lemma val_affine_smax:
  assumes "\<not> (i = j \<and> diag)"
  shows "val_affine diag gopen ext seqA seqB (M, Ga, Gb) i j old =
    (let s = score_affine (seqA ! (i - 1)) (seqB ! (j - 1));
         va = smax 0 (smax (M ! i ! (j - 1) - gopen - ext)
                (smax (Ga ! i ! (j - 1) - ext) (Gb ! i ! (j - 1) - gopen - ext)));
         vb = smax 0 (smax (M ! (i - 1) ! j - gopen - ext)
                (smax (Ga ! (i - 1) ! j - gopen - ext) (Gb ! (i - 1) ! j - ext)));
         vm = smax 0 (smax (M ! (i - 1) ! (j - 1) + s)
                (smax (Ga ! (i - 1) ! (j - 1) + s) (Gb ! (i - 1) ! (j - 1) + s)))
     in (smax vm (smax va vb), va, vb))"
proof -
  have e: "\<And>x y z :: goint. - y - z + x = x - y - z" "\<And>x z :: goint. - z + x = x - z"
    by simp_all
  have "maxScore_affine [valM s d, valGa gopen ext l, valGb gopen ext u] =
        smax (valM s d) (smax (valGa gopen ext l) (valGb gopen ext u))" for s d l u
  proof -
    obtain c a b where d: "pot0 s d = [c, a, b]" by (cases d) (simp add: pot0_def)
    have "0 \<le>s valM s d" by (simp add: valM_def d maxScore_affine_ge0)
    then show ?thesis by (simp add: maxScore_affine_smax smax_0_absorb)
  qed
  note comp = this
  have nex: "(i = j \<and> diag) = False" using assms by simp
  have "val_affine diag gopen ext seqA seqB (M, Ga, Gb) i j old =
      (let score = score_affine (seqA ! (i - 1)) (seqB ! (j - 1));
           vm = valM score (cells (M, Ga, Gb) (i - 1) (j - 1));
           va = valGa gopen ext (cells (M, Ga, Gb) i (j - 1));
           vb = valGb gopen ext (cells (M, Ga, Gb) (i - 1) j)
       in (smax vm (smax va vb), va, vb))"
    by (simp only: val_affine_def nex if_False Let_def comp)
  also have "\<dots> = (let s = score_affine (seqA ! (i - 1)) (seqB ! (j - 1));
         va = smax 0 (smax (M ! i ! (j - 1) - gopen - ext)
                (smax (Ga ! i ! (j - 1) - ext) (Gb ! i ! (j - 1) - gopen - ext)));
         vb = smax 0 (smax (M ! (i - 1) ! j - gopen - ext)
                (smax (Ga ! (i - 1) ! j - gopen - ext) (Gb ! (i - 1) ! j - ext)));
         vm = smax 0 (smax (M ! (i - 1) ! (j - 1) + s)
                (smax (Ga ! (i - 1) ! (j - 1) + s) (Gb ! (i - 1) ! (j - 1) + s)))
     in (smax vm (smax va vb), va, vb))"
    by (simp add: Let_def cells_def valM_def valGa_def valGb_def pot0_def pot1_def
        pot2_def maxScore_affine_smax e)
  finally show ?thesis .
qed


subsection \<open>No cell is negative\<close>

lemma fold_max_ge0:
  "0 \<le>s acc \<Longrightarrow> 0 \<le>s fold (\<lambda>score mx. if mx <s score then score else mx) xs acc"
proof (induction xs arbitrary: acc)
  case Nil
  then show ?case by simp
next
  case (Cons x xs)
  have "0 \<le>s (if acc <s x then x else acc)"
    using Cons.prems by (auto simp: word_sle_eq word_sless_alt)
  from Cons.IH [OF this] show ?case by simp
qed

lemma maxScore_const_ge0: "0 \<le>s maxScore_const xs"
  by (simp add: maxScore_const_def fold_max_ge0)

lemma maxScore_affine_nonneg: "0 \<le>s maxScore_affine xs"
  by (simp add: maxScore_affine_def fold_max_ge0)

lemma val_const_ge0: "0 \<le>s val_const diag penalty seqA seqB M i j"
  by (simp add: val_const_def maxScore_const_ge0)

lemma val_affine_ge0:
  "val_affine diag gopen ext seqA seqB ms i j (0, 0, 0) = (c, a, b) \<Longrightarrow>
   0 \<le>s c \<and> 0 \<le>s a \<and> 0 \<le>s b"
  by (auto simp: val_affine_def Let_def valGa_def valGb_def maxScore_affine_nonneg split: if_splits)

lemma all_cells:
  assumes "shaped n m R" "\<And>i j. i \<le> n \<Longrightarrow> j \<le> m \<Longrightarrow> P (R ! i ! j)"
  shows "\<forall>row \<in> set R. \<forall>x \<in> set row. P x"
proof (intro ballI)
  fix row x assume "row \<in> set R" "x \<in> set row"
  then obtain i j where i: "i < length R" "row = R ! i" and j: "j < length row" "x = row ! j"
    by (auto simp: in_set_conv_nth)
  from i assms(1) have "i \<le> n" by (simp add: shaped_length)
  moreover from this i j assms(1) have "j \<le> m" by (simp add: shaped_row)
  ultimately show "P x" using assms(2) i j by simp
qed

lemma populate_const_nonneg:
  assumes "n \<le> length seqA" "m \<le> length seqB"
  shows "\<exists>R. populate_const diag penalty (makeMatrix n m) seqA seqB = Inr R \<and> shaped n m R \<and>
           (\<forall>i j. i \<le> n \<and> j \<le> m \<longrightarrow> 0 \<le>s R ! i ! j)"
proof -
  from populate_const_makeMatrix [OF assms, of diag penalty]
  obtain R where R: "populate_const diag penalty (makeMatrix n m) seqA seqB = Inr R" "shaped n m R"
    "\<forall>j \<le> m. R ! 0 ! j = 0" "\<forall>i \<le> n. R ! i ! 0 = 0"
    "\<forall>i j. 1 \<le> i \<and> i \<le> n \<and> 1 \<le> j \<and> j \<le> m \<longrightarrow> R ! i ! j = val_const diag penalty seqA seqB R i j"
    by blast
  have "0 \<le>s R ! i ! j" if "i \<le> n" "j \<le> m" for i j
  proof (cases "i = 0 \<or> j = 0")
    case True
    with that R(3,4) show ?thesis by auto
  next
    case False
    with that R(5) have "R ! i ! j = val_const diag penalty seqA seqB R i j" by simp
    then show ?thesis by (simp add: val_const_ge0)
  qed
  with R(1,2) show ?thesis by blast
qed

lemma populate_affine_nonneg:
  assumes "n \<le> length seqA" "m \<le> length seqB"
  shows "\<exists>M Ga Gb. populate_affine diag gopen ext (makeMatrix n m) (makeMatrix n m) (makeMatrix n m)
             seqA seqB = Inr (M, Ga, Gb) \<and>
           shaped n m M \<and> shaped n m Ga \<and> shaped n m Gb \<and>
           (\<forall>i j. i \<le> n \<and> j \<le> m \<longrightarrow> 0 \<le>s M ! i ! j \<and> 0 \<le>s Ga ! i ! j \<and> 0 \<le>s Gb ! i ! j)"
proof -
  from populate_affine_makeMatrix [OF assms, of diag gopen ext]
  obtain ms where ms: "populate_affine diag gopen ext (makeMatrix n m) (makeMatrix n m) (makeMatrix n m)
        seqA seqB = Inr ms" "shaped3 n m ms"
    "\<forall>j \<le> m. cells ms 0 j = (0, 0, 0)" "\<forall>i \<le> n. cells ms i 0 = (0, 0, 0)"
    "\<forall>i j. 1 \<le> i \<and> i \<le> n \<and> 1 \<le> j \<and> j \<le> m \<longrightarrow>
       cells ms i j = val_affine diag gopen ext seqA seqB ms i j (0, 0, 0)"
    by blast
  obtain M Ga Gb where t: "ms = (M, Ga, Gb)" by (cases ms)
  have "0 \<le>s M ! i ! j \<and> 0 \<le>s Ga ! i ! j \<and> 0 \<le>s Gb ! i ! j" if "i \<le> n" "j \<le> m" for i j
  proof (cases "i = 0 \<or> j = 0")
    case True
    with that ms(3,4) have "cells ms i j = (0, 0, 0)" by auto
    then show ?thesis by (simp add: t cells_def)
  next
    case False
    with that ms(5) have "val_affine diag gopen ext seqA seqB ms i j (0, 0, 0) =
        (M ! i ! j, Ga ! i ! j, Gb ! i ! j)"
      by (simp add: t cells_def)
    then show ?thesis by (rule val_affine_ge0)
  qed
  with ms(1,2) t show ?thesis by (auto simp: shaped3_def)
qed

subsection \<open>Symbols that the scoring map lacks\<close>

text \<open>A symbol as the scoring tables see it: one that the map lacks is looked up as \<open>A\<close>.\<close>

definition as_A_const :: "char \<Rightarrow> char" where
  "as_A_const c = (if c \<in> set ''ACGTN'' then c else CHR ''A'')"

definition as_A_affine :: "char \<Rightarrow> char" where
  "as_A_affine c = (if c \<in> set ''ACGT'' then c else CHR ''A'')"

lemma of_char_eq_numeral:
  "(of_char c = (65 :: nat)) = (c = CHR ''A'')"
  "(of_char c = (67 :: nat)) = (c = CHR ''C'')"
  "(of_char c = (71 :: nat)) = (c = CHR ''G'')"
  "(of_char c = (84 :: nat)) = (c = CHR ''T'')"
  "(of_char c = (78 :: nat)) = (c = CHR ''N'')"
  using of_char_eq_iff [of c "CHR ''A''", where ?'a = nat] of_char_eq_iff [of c "CHR ''C''", where ?'a = nat]
    of_char_eq_iff [of c "CHR ''G''", where ?'a = nat] of_char_eq_iff [of c "CHR ''T''", where ?'a = nat]
    of_char_eq_iff [of c "CHR ''N''", where ?'a = nat]
  by simp_all

lemma lookup0_const_unknown: "c \<notin> set ''ACGTN'' \<Longrightarrow> lookup0 baseInt_const (of_char c) = 0"
  by (simp add: lookup0_def baseInt_const_def of_char_eq_numeral)

lemma lookup0_affine_unknown: "c \<notin> set ''ACGT'' \<Longrightarrow> lookup0 baseInt_affine (of_char c) = 0"
  by (simp add: lookup0_def baseInt_affine_def of_char_eq_numeral)

lemma lookup0_as_A_const: "lookup0 baseInt_const (of_char (as_A_const c)) = lookup0 baseInt_const (of_char c)"
  by (auto simp: as_A_const_def lookup0_def baseInt_const_def of_char_eq_numeral)

lemma lookup0_as_A_affine: "lookup0 baseInt_affine (of_char (as_A_affine c)) = lookup0 baseInt_affine (of_char c)"
  by (auto simp: as_A_affine_def lookup0_def baseInt_affine_def of_char_eq_numeral)

lemma ebind_Inr: "ebind (Inr x) f = f x"
  by (simp add: ebind_def)

lemma ebind_assoc: "ebind (ebind r f) g = ebind r (\<lambda>x. ebind (f x) g)"
  by (simp add: ebind_def split: sum.splits)

lemma at_map: "at (map f xs) k = ebind (at xs k) (\<lambda>x. Inr (f x))"
  by (simp add: at_def ebind_def)

lemma cell_const_as_A:
  "cell_const diag penalty (map as_A_const seqA) (map as_A_const seqB) i j M =
   cell_const diag penalty seqA seqB i j M"
  by (simp add: cell_const_def at_map ebind_assoc ebind_Inr lookup0_as_A_const)

lemma row_const_as_A:
  "row_const diag penalty (map as_A_const seqA) (map as_A_const seqB) i j M =
   row_const diag penalty seqA seqB i j M"
proof (induction diag penalty seqA seqB i j M rule: row_const.induct)
  case (1 diag penalty seqA seqB i j matches)
  show ?case
    unfolding row_const.simps [of diag penalty "map as_A_const seqA" "map as_A_const seqB" i j matches]
      row_const.simps [of diag penalty seqA seqB i j matches]
    using "1.IH" by (auto simp: cell_const_as_A split: sum.splits)
qed

lemma rows_const_as_A:
  "rows_const diag penalty (map as_A_const seqA) (map as_A_const seqB) i M =
   rows_const diag penalty seqA seqB i M"
proof (induction diag penalty seqA seqB i M rule: rows_const.induct)
  case (1 diag penalty seqA seqB i matches)
  show ?case
    unfolding rows_const.simps [of diag penalty "map as_A_const seqA" "map as_A_const seqB" i matches]
      rows_const.simps [of diag penalty seqA seqB i matches]
    using "1.IH" by (auto simp: row_const_as_A split: sum.splits)
qed

lemma cell_affine_as_A:
  "cell_affine diag gopen ext (map as_A_affine seqA) (map as_A_affine seqB) i j ms =
   cell_affine diag gopen ext seqA seqB i j ms"
  by (cases ms) (simp add: cell_affine_def at_map ebind_assoc ebind_Inr lookup0_as_A_affine
      del: kloop_affine.simps)

lemma row_affine_as_A:
  "row_affine diag gopen ext (map as_A_affine seqA) (map as_A_affine seqB) i j ms =
   row_affine diag gopen ext seqA seqB i j ms"
proof (induction diag gopen ext seqA seqB i j ms rule: row_affine.induct)
  case (1 diag gopen ext seqA seqB i j ms)
  show ?case
    unfolding row_affine.simps [of diag gopen ext "map as_A_affine seqA" "map as_A_affine seqB" i j ms]
      row_affine.simps [of diag gopen ext seqA seqB i j ms]
    using "1.IH" by (auto simp: cell_affine_as_A split: sum.splits)
qed

lemma rows_affine_as_A:
  "rows_affine diag gopen ext (map as_A_affine seqA) (map as_A_affine seqB) i ms =
   rows_affine diag gopen ext seqA seqB i ms"
proof (induction diag gopen ext seqA seqB i ms rule: rows_affine.induct)
  case (1 diag gopen ext seqA seqB i ms)
  show ?case
    unfolding rows_affine.simps [of diag gopen ext "map as_A_affine seqA" "map as_A_affine seqB" i ms]
      rows_affine.simps [of diag gopen ext seqA seqB i ms]
    using "1.IH" by (auto simp: row_affine_as_A split: sum.splits)
qed

lemma score_unknown:
  "c \<notin> set ''ACGTN'' \<Longrightarrow> score_const c d = score_const CHR ''A'' d"
  "c \<notin> set ''ACGTN'' \<Longrightarrow> score_const d c = score_const d CHR ''A''"
  "c \<notin> set ''ACGT'' \<Longrightarrow> score_affine c d = score_affine CHR ''A'' d"
  "c \<notin> set ''ACGT'' \<Longrightarrow> score_affine d c = score_affine d CHR ''A''"
  by (simp_all add: score_const_def score_affine_def lookup0_def baseInt_const_def
      baseInt_affine_def of_char_eq_numeral)

lemma score_A:
  "score_const CHR ''A'' CHR ''A'' = 5" "score_const CHR ''A'' CHR ''C'' = - 4"
  "score_const CHR ''A'' CHR ''G'' = - 4" "score_const CHR ''A'' CHR ''T'' = - 4"
  "score_affine CHR ''A'' CHR ''A'' = 5" "score_affine CHR ''A'' CHR ''C'' = - 4"
  "score_affine CHR ''A'' CHR ''G'' = - 4" "score_affine CHR ''A'' CHR ''T'' = - 4"
  by (simp_all add: score_const_def score_affine_def scores_const_def scores_affine_def
      lookup0_def baseInt_const_def baseInt_affine_def)

subsection \<open>The affine builder with gap-open 0 against the constant builder\<close>

text \<open>
  Signed readings of sums and differences that do not overflow, and the step of one cell:
  when the gap matrices are between 0 and the composite matrix at the three predecessors,
  the affine cell with gap-open 0 and gap-extend \<open>p\<close> is the constant-penalty cell.
\<close>

lemma sint_smax: "sint (smax a b) = max (sint a) (sint b)"
  by (simp add: smax_def word_sle_eq max_def)

lemma sint_add_small:
  fixes a b :: goint
  assumes "- (2 ^ 63) \<le> sint a + sint b" "sint a + sint b < 2 ^ 63"
  shows "sint (a + b) = sint a + sint b"
proof -
  have "sint (a + b) = signed_take_bit 63 (sint a + sint b)"
    by (simp add: sint_word_ariths)
  also have "\<dots> = sint a + sint b"
    using assms by (intro signed_take_bit_int_eq_self) simp_all
  finally show ?thesis .
qed

lemma sint_sub_small:
  fixes a b :: goint
  assumes "- (2 ^ 63) \<le> sint a - sint b" "sint a - sint b < 2 ^ 63"
  shows "sint (a - b) = sint a - sint b"
proof -
  have "sint (a - b) = signed_take_bit 63 (sint a - sint b)"
    by (simp add: sint_word_ariths)
  also have "\<dots> = sint a - sint b"
    using assms by (intro signed_take_bit_int_eq_self) simp_all
  finally show ?thesis .
qed

lemma sint_goint_lt: "sint (x :: goint) < 2 ^ 63"
  using sint_lt [of x] by simp

lemma cell_step:
  fixes d da db l la lb u ua ub p s :: goint and B :: int
  assumes p: "0 \<le> sint p"
    and s: "- 4 \<le> sint s" "sint s \<le> 5"
    and d: "0 \<le> sint da" "sint da \<le> sint d" "0 \<le> sint db" "sint db \<le> sint d" "sint d \<le> B"
    and l: "0 \<le> sint la" "sint la \<le> sint l" "0 \<le> sint lb" "sint lb \<le> sint l" "sint l \<le> B + 5"
    and u: "0 \<le> sint ua" "sint ua \<le> sint u" "0 \<le> sint ub" "sint ub \<le> sint u" "sint u \<le> B + 5"
    and B: "B + 5 < 2 ^ 63"
  defines "va \<equiv> smax 0 (smax (l - 0 - p) (smax (la - p) (lb - 0 - p)))"
    and "vb \<equiv> smax 0 (smax (u - 0 - p) (smax (ua - 0 - p) (ub - p)))"
    and "vm \<equiv> smax 0 (smax (d + s) (smax (da + s) (db + s)))"
    and "k \<equiv> smax 0 (smax (d + s) (smax (u - p) (l - p)))"
  shows "smax vm (smax va vb) = k" "0 \<le> sint va" "sint va \<le> sint k"
    "0 \<le> sint vb" "sint vb \<le> sint k" "0 \<le> sint k" "sint k \<le> B + 5"
proof -
  note lt = sint_goint_lt [of p]
  have a: "sint (d + s) = sint d + sint s" "sint (da + s) = sint da + sint s"
    "sint (db + s) = sint db + sint s"
    using s d B by (intro sint_add_small; simp)+
  have b: "sint (l - p) = sint l - sint p" "sint (la - p) = sint la - sint p"
    "sint (lb - p) = sint lb - sint p" "sint (u - p) = sint u - sint p"
    "sint (ua - p) = sint ua - sint p" "sint (ub - p) = sint ub - sint p"
    using p l u B lt by (intro sint_sub_small; simp)+
  have sva: "sint va = max 0 (sint l - sint p)"
    using l by (simp add: va_def sint_smax b)
  have svb: "sint vb = max 0 (sint u - sint p)"
    using u by (simp add: vb_def sint_smax b)
  have svm: "sint vm = max 0 (sint d + sint s)"
    using d by (simp add: vm_def sint_smax a)
  have sk: "sint k = max 0 (max (sint d + sint s) (max (sint u - sint p) (sint l - sint p)))"
    by (simp add: k_def sint_smax a b)
  show "smax vm (smax va vb) = k"
    by (simp add: goint_eq_sint sint_smax sva svb svm sk)
  show "0 \<le> sint va" "sint va \<le> sint k" "0 \<le> sint vb" "sint vb \<le> sint k" "0 \<le> sint k"
    by (simp_all add: sva svb sk)
  show "sint k \<le> B + 5" using p s d l u by (simp add: sk)
qed


lemma score_ACGT:
  assumes "a \<in> set ''ACGT''" "b \<in> set ''ACGT''"
  shows "score_affine a b = score_const a b" "- 4 \<le> sint (score_const a b)"
    "sint (score_const a b) \<le> 5"
  using assms
  by (auto simp: score_affine_def score_const_def scores_affine_def scores_const_def lookup0_def
      baseInt_affine_def baseInt_const_def)

lemma shaped_eqI:
  assumes "shaped n m A" "shaped n m B" "\<And>i j. i \<le> n \<Longrightarrow> j \<le> m \<Longrightarrow> A ! i ! j = B ! i ! j"
  shows "A = B"
proof (rule nth_equalityI)
  show "length A = length B" using assms(1,2) by (simp add: shaped_length)
next
  fix i assume "i < length A"
  then have i: "i \<le> n" using assms(1) by (simp add: shaped_length)
  show "A ! i = B ! i"
  proof (rule nth_equalityI)
    show "length (A ! i) = length (B ! i)" using assms(1,2) i by (simp add: shaped_row)
  next
    fix j assume "j < length (A ! i)"
    then have "j \<le> m" using assms(1) i by (simp add: shaped_row)
    with i show "A ! i ! j = B ! i ! j" by (rule assms(3))
  qed
qed

lemma affine_const_agree:
  fixes R M Ga Gb :: matrix and p :: goint
  assumes R0: "\<And>i j. i \<le> length seqA \<Longrightarrow> j \<le> length seqB \<Longrightarrow> i = 0 \<or> j = 0 \<Longrightarrow> R ! i ! j = 0"
    and R1: "\<And>i j. 1 \<le> i \<Longrightarrow> i \<le> length seqA \<Longrightarrow> 1 \<le> j \<Longrightarrow> j \<le> length seqB \<Longrightarrow>
              R ! i ! j = val_const diag p seqA seqB R i j"
    and A0: "\<And>i j. i \<le> length seqA \<Longrightarrow> j \<le> length seqB \<Longrightarrow> i = 0 \<or> j = 0 \<Longrightarrow>
              cells (M, Ga, Gb) i j = (0, 0, 0)"
    and A1: "\<And>i j. 1 \<le> i \<Longrightarrow> i \<le> length seqA \<Longrightarrow> 1 \<le> j \<Longrightarrow> j \<le> length seqB \<Longrightarrow>
              cells (M, Ga, Gb) i j = val_affine diag 0 p seqA seqB (M, Ga, Gb) i j (0, 0, 0)"
    and alph: "set seqA \<subseteq> set ''ACGT''" "set seqB \<subseteq> set ''ACGT''"
    and p: "0 \<le>s p"
    and bound: "5 * int (min (length seqA) (length seqB)) < 2 ^ 63"
  shows "i \<le> length seqA \<Longrightarrow> j \<le> length seqB \<Longrightarrow>
         M ! i ! j = R ! i ! j \<and>
         0 \<le> sint (Ga ! i ! j) \<and> sint (Ga ! i ! j) \<le> sint (R ! i ! j) \<and>
         0 \<le> sint (Gb ! i ! j) \<and> sint (Gb ! i ! j) \<le> sint (R ! i ! j) \<and>
         0 \<le> sint (R ! i ! j) \<and> sint (R ! i ! j) \<le> 5 * int (min i j)"
proof (induction "i + j" arbitrary: i j rule: less_induct)
  case less
  note ij = less.prems
  show ?case
  proof (cases "i = 0 \<or> j = 0")
    case True
    from A0 [OF ij True] R0 [OF ij True] show ?thesis by (simp add: cells_def)
  next
    case False
    then have pos: "1 \<le> i" "1 \<le> j" by simp_all
    have r: "R ! i ! j = val_const diag p seqA seqB R i j"
      using pos ij by (intro R1) simp_all
    have c: "cells (M, Ga, Gb) i j = val_affine diag 0 p seqA seqB (M, Ga, Gb) i j (0, 0, 0)"
      using pos ij by (intro A1) simp_all
    show ?thesis
    proof (cases "i = j \<and> diag")
      case True
      with r c show ?thesis by (simp add: val_const_def val_affine_def cells_def)
    next
      case nex: False
      let ?s = "score_const (seqA ! (i - 1)) (seqB ! (j - 1))"
      let ?B = "5 * int (min (i - 1) (j - 1))"
      have mem: "seqA ! (i - 1) \<in> set ''ACGT''" "seqB ! (j - 1) \<in> set ''ACGT''"
        using alph pos ij by (auto simp del: set_simps intro!: subsetD [OF _ nth_mem])
      note sc = score_ACGT [OF mem]
      have D: "M ! (i - 1) ! (j - 1) = R ! (i - 1) ! (j - 1) \<and>
         0 \<le> sint (Ga ! (i - 1) ! (j - 1)) \<and> sint (Ga ! (i - 1) ! (j - 1)) \<le> sint (R ! (i - 1) ! (j - 1)) \<and>
         0 \<le> sint (Gb ! (i - 1) ! (j - 1)) \<and> sint (Gb ! (i - 1) ! (j - 1)) \<le> sint (R ! (i - 1) ! (j - 1)) \<and>
         0 \<le> sint (R ! (i - 1) ! (j - 1)) \<and> sint (R ! (i - 1) ! (j - 1)) \<le> 5 * int (min (i - 1) (j - 1))"
        using pos ij by (intro less.hyps) simp_all
      have L: "M ! i ! (j - 1) = R ! i ! (j - 1) \<and>
         0 \<le> sint (Ga ! i ! (j - 1)) \<and> sint (Ga ! i ! (j - 1)) \<le> sint (R ! i ! (j - 1)) \<and>
         0 \<le> sint (Gb ! i ! (j - 1)) \<and> sint (Gb ! i ! (j - 1)) \<le> sint (R ! i ! (j - 1)) \<and>
         0 \<le> sint (R ! i ! (j - 1)) \<and> sint (R ! i ! (j - 1)) \<le> 5 * int (min i (j - 1))"
        using pos ij by (intro less.hyps) simp_all
      have U: "M ! (i - 1) ! j = R ! (i - 1) ! j \<and>
         0 \<le> sint (Ga ! (i - 1) ! j) \<and> sint (Ga ! (i - 1) ! j) \<le> sint (R ! (i - 1) ! j) \<and>
         0 \<le> sint (Gb ! (i - 1) ! j) \<and> sint (Gb ! (i - 1) ! j) \<le> sint (R ! (i - 1) ! j) \<and>
         0 \<le> sint (R ! (i - 1) ! j) \<and> sint (R ! (i - 1) ! j) \<le> 5 * int (min (i - 1) j)"
        using pos ij by (intro less.hyps) simp_all
      have "min i j = min (i - 1) (j - 1) + 1" using pos by arith
      then have B5: "?B + 5 = 5 * int (min i j)" by simp
      have Bb: "?B + 5 < 2 ^ 63"
      proof -
        have "min i j \<le> min (length seqA) (length seqB)" using ij by arith
        then have "int (min i j) \<le> int (min (length seqA) (length seqB))" by (simp only: of_nat_le_iff)
        with bound B5 show ?thesis by linarith
      qed
      have "min i (j - 1) \<le> min i j" "min (i - 1) j \<le> min i j" by simp_all
      then have "5 * int (min i (j - 1)) \<le> ?B + 5" "5 * int (min (i - 1) j) \<le> ?B + 5"
        unfolding B5 by simp_all
      with L U have lb: "sint (R ! i ! (j - 1)) \<le> ?B + 5" and ub: "sint (R ! (i - 1) ! j) \<le> ?B + 5"
        by linarith+
      have p0: "0 \<le> sint p" using p by (simp add: word_sle_eq)
      note step = cell_step [where p = p and s = ?s and B = ?B
          and d = "R ! (i - 1) ! (j - 1)" and da = "Ga ! (i - 1) ! (j - 1)" and db = "Gb ! (i - 1) ! (j - 1)"
          and l = "R ! i ! (j - 1)" and la = "Ga ! i ! (j - 1)" and lb = "Gb ! i ! (j - 1)"
          and u = "R ! (i - 1) ! j" and ua = "Ga ! (i - 1) ! j" and ub = "Gb ! (i - 1) ! j",
          OF p0 sc(2,3) _ _ _ _ _ _ _ _ _ lb _ _ _ _ ub Bb]
      have rk: "R ! i ! j = smax 0 (smax (R ! (i - 1) ! (j - 1) + ?s)
          (smax (R ! (i - 1) ! j - p) (R ! i ! (j - 1) - p)))"
        using r nex by (simp only: val_const_def maxScore_const_smax if_False)
      have ck: "(M ! i ! j, Ga ! i ! j, Gb ! i ! j) =
        (let s = score_affine (seqA ! (i - 1)) (seqB ! (j - 1));
             va = smax 0 (smax (M ! i ! (j - 1) - 0 - p)
                (smax (Ga ! i ! (j - 1) - p) (Gb ! i ! (j - 1) - 0 - p)));
             vb = smax 0 (smax (M ! (i - 1) ! j - 0 - p)
                (smax (Ga ! (i - 1) ! j - 0 - p) (Gb ! (i - 1) ! j - p)));
             vm = smax 0 (smax (M ! (i - 1) ! (j - 1) + s)
                (smax (Ga ! (i - 1) ! (j - 1) + s) (Gb ! (i - 1) ! (j - 1) + s)))
         in (smax vm (smax va vb), va, vb))"
        using c by (simp only: val_affine_smax [OF nex] cells_def prod.case)
      have eqs: "M ! i ! (j - 1) = R ! i ! (j - 1)" "M ! (i - 1) ! j = R ! (i - 1) ! j"
        "M ! (i - 1) ! (j - 1) = R ! (i - 1) ! (j - 1)"
        using D L U by simp_all
      from ck have m: "M ! i ! j = smax (smax 0 (smax (R ! (i - 1) ! (j - 1) + ?s)
                (smax (Ga ! (i - 1) ! (j - 1) + ?s) (Gb ! (i - 1) ! (j - 1) + ?s))))
            (smax (smax 0 (smax (R ! i ! (j - 1) - 0 - p)
                (smax (Ga ! i ! (j - 1) - p) (Gb ! i ! (j - 1) - 0 - p))))
              (smax 0 (smax (R ! (i - 1) ! j - 0 - p)
                (smax (Ga ! (i - 1) ! j - 0 - p) (Gb ! (i - 1) ! j - p)))))"
        and ga: "Ga ! i ! j = smax 0 (smax (R ! i ! (j - 1) - 0 - p)
                (smax (Ga ! i ! (j - 1) - p) (Gb ! i ! (j - 1) - 0 - p)))"
        and gb: "Gb ! i ! j = smax 0 (smax (R ! (i - 1) ! j - 0 - p)
                (smax (Ga ! (i - 1) ! j - 0 - p) (Gb ! (i - 1) ! j - p)))"
        by (simp_all only: Let_def prod.inject eqs sc(1))
      from D L U have pre:
        "0 \<le> sint (Ga ! (i - 1) ! (j - 1))" "sint (Ga ! (i - 1) ! (j - 1)) \<le> sint (R ! (i - 1) ! (j - 1))"
        "0 \<le> sint (Gb ! (i - 1) ! (j - 1))" "sint (Gb ! (i - 1) ! (j - 1)) \<le> sint (R ! (i - 1) ! (j - 1))"
        "sint (R ! (i - 1) ! (j - 1)) \<le> ?B"
        "0 \<le> sint (Ga ! i ! (j - 1))" "sint (Ga ! i ! (j - 1)) \<le> sint (R ! i ! (j - 1))"
        "0 \<le> sint (Gb ! i ! (j - 1))" "sint (Gb ! i ! (j - 1)) \<le> sint (R ! i ! (j - 1))"
        "0 \<le> sint (Ga ! (i - 1) ! j)" "sint (Ga ! (i - 1) ! j) \<le> sint (R ! (i - 1) ! j)"
        "0 \<le> sint (Gb ! (i - 1) ! j)" "sint (Gb ! (i - 1) ! j) \<le> sint (R ! (i - 1) ! j)"
        by simp_all
      note st = step [OF pre(1-9) pre(10-13)]
      from st(1) have "M ! i ! j = R ! i ! j" by (simp only: m rk)
      moreover from st(2,3) have "0 \<le> sint (Ga ! i ! j)" "sint (Ga ! i ! j) \<le> sint (R ! i ! j)"
        by (simp_all only: ga rk)
      moreover from st(4,5) have "0 \<le> sint (Gb ! i ! j)" "sint (Gb ! i ! j) \<le> sint (R ! i ! j)"
        by (simp_all only: gb rk)
      moreover from st(6,7) have "0 \<le> sint (R ! i ! j)" "sint (R ! i ! j) \<le> 5 * int (min i j)"
        by (simp_all only: rk B5)
      ultimately show ?thesis by blast
    qed
  qed
qed

subsection \<open>Evaluation on a small input\<close>

lemma makeMatrix_1_3: "makeMatrix (Suc 0) 3 = [[0,0,0,0],[0,0,0,0]]"
  by (simp add: makeMatrix_def eval_nat_numeral)

lemmas eval_const = populate_const_def rows_const.simps row_const.simps cell_const_def at_def get2_def set2_def ebind_def maxScore_const_def scores_const_def baseInt_const_def lookup0_def word_sless_alt Let_def

lemma populate_const_A_ACC: "populate_const False 1 (makeMatrix 1 3) ''A'' ''ACC'' = Inr [[0,0,0,0],[0,5,4,3]]"
  by (simp add: eval_const makeMatrix_1_3)

text \<open>
  With the least 64-bit penalty, \<open>0 - penalty\<close> wraps around to the penalty itself, which
  is negative: the gap terms lose against the floor.
\<close>

lemma populate_const_min_penalty:
  "populate_const False (- 9223372036854775808) (makeMatrix 1 3) ''A'' ''ACC'' =
   Inr [[0, 0, 0, 0], [0, 5, 0, 0]]"
  by (simp add: eval_const makeMatrix_1_3)

lemmas eval_affine = populate_affine_def rows_affine.simps row_affine.simps cell_affine_def
  potential_affine_def store_affine_def at_def get2_def set2_def ebind_def maxScore_affine_def
  scores_affine_def baseInt_affine_def lookup0_def word_sless_alt Let_def

lemma populate_affine_A_ACC:
  "populate_affine False 1 0 (makeMatrix 1 3) (makeMatrix 1 3) (makeMatrix 1 3) ''A'' ''ACC'' =
   Inr ([[0, 0, 0, 0], [0, 5, 4, 4]], [[0, 0, 0, 0], [0, 0, 4, 4]], [[0, 0, 0, 0], [0, 0, 0, 0]])"
  by (simp add: eval_affine makeMatrix_1_3)

lemmas eval_sums = sums_def sums_rows.simps sums_row.simps at_def get2_def ebind_def

lemma sums_example: "sums [[1, 2, 3], [4, 5, 6]] = Inr [6, 8, 3]"
  by (simp add: eval_sums)

lemma sums_example_A: "sums [[1, 2], [3, 4]] = Inr [5, 2]"
  by (simp add: eval_sums)

lemma sums_example_B: "sums [[10, 20], [30, 40]] = Inr [50, 20]"
  by (simp add: eval_sums)

lemma sums_example_AB: "sums (cellwise_sum [[1, 2], [3, 4]] [[10, 20], [30, 40]]) = Inr [55, 22]"
  by (simp add: eval_sums cellwise_sum_def)

lemma makeMatrix_2_3: "makeMatrix 2 3 = [[0, 0, 0, 0], [0, 0, 0, 0], [0, 0, 0, 0]]"
  by (simp add: makeMatrix_def eval_nat_numeral)

lemma populate_const_diag_example:
  "populate_const True 1 (makeMatrix 2 3) ''AC'' ''ACC'' =
   Inr [[0, 0, 0, 0], [0, 0, 0, 0], [0, 0, 0, 5]]"
  by (simp add: eval_const makeMatrix_2_3)

lemma populate_affine_diag_example:
  "populate_affine True 1 0 (makeMatrix 2 3) (makeMatrix 2 3) (makeMatrix 2 3) ''AC'' ''ACC'' =
   Inr ([[0, 0, 0, 0], [0, 0, 0, 0], [0, 0, 0, 5]],
        [[0, 0, 0, 0], [0, 0, 0, 0], [0, 0, 0, 0]],
        [[0, 0, 0, 0], [0, 0, 0, 0], [0, 0, 0, 0]])"
  by (simp add: eval_affine makeMatrix_2_3)

lemma populate_affine_zero_open_A_ACC:
  "populate_affine False 0 1 (makeMatrix 1 3) (makeMatrix 1 3) (makeMatrix 1 3) ''A'' ''ACC'' =
   Inr ([[0, 0, 0, 0], [0, 5, 4, 3]], [[0, 0, 0, 0], [0, 0, 4, 3]], [[0, 0, 0, 0], [0, 0, 0, 0]])"
  by (simp add: eval_affine makeMatrix_1_3)

lemmas eval_readers = readFasta_def fasta_reader_def readFasta_loop.simps fasta_reader_loop.simps
  scan_def add_line_def add_seq_def newline_def dropCR_def maxScanTokenSize_def Let_def

lemma readFasta_examples:
  "readFasta [''a.fa'' \<mapsto> [], ''b.fa'' \<mapsto> ''>h'' @ [newline] @ ''ACGT'' @ [newline]] ''a.fa'' = Inr []"
  "readFasta [''a.fa'' \<mapsto> [], ''b.fa'' \<mapsto> ''>h'' @ [newline] @ ''ACGT'' @ [newline]] ''b.fa'' =
     Inr [\<lparr>header = ''h'', seq = ''ACGT''\<rparr>]"
  "fasta_reader [''a.fa'' \<mapsto> [], ''b.fa'' \<mapsto> ''>h'' @ [newline] @ ''ACGT'' @ [newline]] ''a.fa'' = Inr []"
  by (simp_all add: eval_readers)

lemma long_line_example:
  "fasta_reader_loop (''>h'' @ [newline] @ replicate 65536 CHR ''A'') [] =
   Inr [\<lparr>header = ''h'', seq = []\<rparr>]"
proof -
  let ?x = "replicate 65536 CHR ''A''"
  have t: "takeWhile (\<lambda>c. c \<noteq> newline) (''>h'' @ [newline] @ ?x) = ''>h''"
    by (simp add: newline_def)
  have "scan (''>h'' @ [newline] @ ?x) = Some (dropCR ''>h'', drop (length ''>h'' + 1) (''>h'' @ [newline] @ ?x))"
    using scan_line [of "''>h'' @ [newline] @ ?x"] unfolding t by (simp add: maxScanTokenSize_def)
  then have "scan (''>h'' @ [newline] @ ?x) = Some (''>h'', ?x)"
    by (simp add: dropCR_def)
  then have "fasta_reader_loop (''>h'' @ [newline] @ ?x) [] =
      ebind (add_line ''>h'' []) (fasta_reader_loop ?x)"
    by (rule fasta_reader_loop_step)
  moreover have "add_line ''>h'' [] = Inr [\<lparr>header = ''h'', seq = []\<rparr>]"
    by (simp add: add_line_def)
  moreover have "scan ?x = None"
    by (intro scan_too_long) (simp add: newline_def maxScanTokenSize_def)
  ultimately show ?thesis by (simp add: ebind_def fasta_reader_loop_end)
qed

lemma reader_examples:
  "readFasta_loop (''>h'' @ [newline] @ ''AC'' @ [newline]) [] = Inr [\<lparr>header = ''h'', seq = ''AC''\<rparr>]"
  "fasta_reader_loop (''>h'' @ [newline] @ ''AC'' @ [newline]) [] = Inr [\<lparr>header = ''h'', seq = ''AC''\<rparr>]"
  by (simp_all add: readFasta_loop.simps fasta_reader_loop.simps
      scan_def add_line_def add_seq_def newline_def dropCR_def maxScanTokenSize_def Let_def)

subsection \<open>The recurrences at every inner cell, and the run of affine's main\<close>

text \<open>
  The final matrices of both builders, run on fresh matrices as \<open>main\<close> runs them,
  satisfy the recurrences at every inner cell that the diagonal flag does not exclude.
\<close>

lemma populate_affine_recurrence:
  "\<exists>M Ga Gb.
      populate_affine diag gopen ext (makeMatrix (length seqA) (length seqB))
        (makeMatrix (length seqA) (length seqB)) (makeMatrix (length seqA) (length seqB)) seqA seqB
        = Inr (M, Ga, Gb) \<and>
      shaped (length seqA) (length seqB) M \<and>
      (\<forall>i j. 1 \<le> i \<and> i \<le> length seqA \<and> 1 \<le> j \<and> j \<le> length seqB \<and> \<not> (i = j \<and> diag) \<longrightarrow>
        Ga ! i ! j = smax 0 (smax (M ! i ! (j - 1) - gopen - ext)
                       (smax (Ga ! i ! (j - 1) - ext) (Gb ! i ! (j - 1) - gopen - ext))) \<and>
        Gb ! i ! j = smax 0 (smax (M ! (i - 1) ! j - gopen - ext)
                       (smax (Ga ! (i - 1) ! j - gopen - ext) (Gb ! (i - 1) ! j - ext))) \<and>
        M ! i ! j =
          smax (smax 0 (smax (M ! (i - 1) ! (j - 1) + score_affine (seqA ! (i - 1)) (seqB ! (j - 1)))
                  (smax (Ga ! (i - 1) ! (j - 1) + score_affine (seqA ! (i - 1)) (seqB ! (j - 1)))
                        (Gb ! (i - 1) ! (j - 1) + score_affine (seqA ! (i - 1)) (seqB ! (j - 1))))))
               (smax (Ga ! i ! j) (Gb ! i ! j)))"
proof -
  let ?n = "length seqA" and ?m = "length seqB"
  obtain ms where ms: "populate_affine diag gopen ext (makeMatrix ?n ?m) (makeMatrix ?n ?m)
        (makeMatrix ?n ?m) seqA seqB = Inr ms" "shaped3 ?n ?m ms"
      "\<forall>i j. 1 \<le> i \<and> i \<le> ?n \<and> 1 \<le> j \<and> j \<le> ?m \<longrightarrow>
         cells ms i j = val_affine diag gopen ext seqA seqB ms i j (0, 0, 0)"
    using populate_affine_makeMatrix [of ?n seqA ?m seqB diag gopen ext] by auto
  obtain M Ga Gb where t: "ms = (M, Ga, Gb)" by (cases ms)
  have "Ga ! i ! j = smax 0 (smax (M ! i ! (j - 1) - gopen - ext)
                     (smax (Ga ! i ! (j - 1) - ext) (Gb ! i ! (j - 1) - gopen - ext))) \<and>
      Gb ! i ! j = smax 0 (smax (M ! (i - 1) ! j - gopen - ext)
                     (smax (Ga ! (i - 1) ! j - gopen - ext) (Gb ! (i - 1) ! j - ext))) \<and>
      M ! i ! j =
        smax (smax 0 (smax (M ! (i - 1) ! (j - 1) + score_affine (seqA ! (i - 1)) (seqB ! (j - 1)))
                (smax (Ga ! (i - 1) ! (j - 1) + score_affine (seqA ! (i - 1)) (seqB ! (j - 1)))
                      (Gb ! (i - 1) ! (j - 1) + score_affine (seqA ! (i - 1)) (seqB ! (j - 1))))))
             (smax (Ga ! i ! j) (Gb ! i ! j))"
    if h: "1 \<le> i \<and> i \<le> ?n \<and> 1 \<le> j \<and> j \<le> ?m \<and> \<not> (i = j \<and> diag)" for i j
  proof -
    from h have nex: "\<not> (i = j \<and> diag)" by simp
    from ms(3) h have "cells ms i j = val_affine diag gopen ext seqA seqB ms i j (0, 0, 0)"
      by blast
    then have "(M ! i ! j, Ga ! i ! j, Gb ! i ! j) =
        val_affine diag gopen ext seqA seqB (M, Ga, Gb) i j (0, 0, 0)"
      by (simp add: t cells_def)
    then have c: "Ga ! i ! j = smax 0 (smax (M ! i ! (j - 1) - gopen - ext)
                     (smax (Ga ! i ! (j - 1) - ext) (Gb ! i ! (j - 1) - gopen - ext)))"
      "Gb ! i ! j = smax 0 (smax (M ! (i - 1) ! j - gopen - ext)
                     (smax (Ga ! (i - 1) ! j - gopen - ext) (Gb ! (i - 1) ! j - ext)))"
      "M ! i ! j =
        smax (smax 0 (smax (M ! (i - 1) ! (j - 1) + score_affine (seqA ! (i - 1)) (seqB ! (j - 1)))
                (smax (Ga ! (i - 1) ! (j - 1) + score_affine (seqA ! (i - 1)) (seqB ! (j - 1)))
                      (Gb ! (i - 1) ! (j - 1) + score_affine (seqA ! (i - 1)) (seqB ! (j - 1))))))
             (smax (smax 0 (smax (M ! i ! (j - 1) - gopen - ext)
                     (smax (Ga ! i ! (j - 1) - ext) (Gb ! i ! (j - 1) - gopen - ext))))
                   (smax 0 (smax (M ! (i - 1) ! j - gopen - ext)
                     (smax (Ga ! (i - 1) ! j - gopen - ext) (Gb ! (i - 1) ! j - ext)))))"
      by (simp_all only: val_affine_smax [OF nex] Let_def prod.inject)
    from c(3) have "M ! i ! j =
        smax (smax 0 (smax (M ! (i - 1) ! (j - 1) + score_affine (seqA ! (i - 1)) (seqB ! (j - 1)))
                (smax (Ga ! (i - 1) ! (j - 1) + score_affine (seqA ! (i - 1)) (seqB ! (j - 1)))
                      (Gb ! (i - 1) ! (j - 1) + score_affine (seqA ! (i - 1)) (seqB ! (j - 1))))))
             (smax (Ga ! i ! j) (Gb ! i ! j))"
      by (simp only: c(1) [symmetric] c(2) [symmetric])
    with c(1,2) show ?thesis by blast
  qed
  moreover from ms(2) t have "shaped ?n ?m M" by (simp add: shaped3_def)
  ultimately show ?thesis using ms(1) t by blast
qed

lemma populate_const_recurrence:
  "\<exists>R. populate_const diag penalty (makeMatrix (length seqA) (length seqB)) seqA seqB = Inr R \<and>
      shaped (length seqA) (length seqB) R \<and>
      (\<forall>i j. 1 \<le> i \<and> i \<le> length seqA \<and> 1 \<le> j \<and> j \<le> length seqB \<and> \<not> (i = j \<and> diag) \<longrightarrow>
        R ! i ! j =
          smax 0 (smax (R ! (i - 1) ! (j - 1) + score_const (seqA ! (i - 1)) (seqB ! (j - 1)))
                 (smax (R ! (i - 1) ! j - penalty) (R ! i ! (j - 1) - penalty))))"
proof -
  let ?n = "length seqA" and ?m = "length seqB"
  obtain R where R: "populate_const diag penalty (makeMatrix ?n ?m) seqA seqB = Inr R"
      "shaped ?n ?m R"
      "\<forall>i j. 1 \<le> i \<and> i \<le> ?n \<and> 1 \<le> j \<and> j \<le> ?m \<longrightarrow>
         R ! i ! j = val_const diag penalty seqA seqB R i j"
    using populate_const_makeMatrix [of ?n seqA ?m seqB diag penalty] by auto
  have "R ! i ! j =
          smax 0 (smax (R ! (i - 1) ! (j - 1) + score_const (seqA ! (i - 1)) (seqB ! (j - 1)))
                 (smax (R ! (i - 1) ! j - penalty) (R ! i ! (j - 1) - penalty)))"
    if h: "1 \<le> i \<and> i \<le> ?n \<and> 1 \<le> j \<and> j \<le> ?m \<and> \<not> (i = j \<and> diag)" for i j
  proof -
    from h have nex: "\<not> (i = j \<and> diag)" by simp
    from R(3) h have "R ! i ! j = val_const diag penalty seqA seqB R i j" by blast
    also have "\<dots> = smax 0 (smax (R ! (i - 1) ! (j - 1) + score_const (seqA ! (i - 1)) (seqB ! (j - 1)))
                    (smax (R ! (i - 1) ! j - penalty) (R ! i ! (j - 1) - penalty)))"
      using nex by (simp only: val_const_def maxScore_const_smax if_False)
    finally show ?thesis .
  qed
  with R(1,2) show ?thesis by blast
qed

lemma main_affine_run:
  assumes "affine_a flags \<noteq> []" "affine_b flags \<noteq> []"
    "fasta_reader fs (affine_a flags) = Inr (ra # rsa)"
    "fasta_reader fs (affine_b flags) = Inr (rb # rsb)"
    "populate_affine (affine_d flags) (affine_o flags) (affine_e flags)
       (makeMatrix (length (seq ra)) (length (seq rb))) (makeMatrix (length (seq ra)) (length (seq rb)))
       (makeMatrix (length (seq ra)) (length (seq rb))) (seq ra) (seq rb) = Inr (M, Ga, Gb)"
    "sums M = Inr prof"
  shows "main_affine flags fs True =
         Inr \<lparr>printed = (if affine_m flags then Some M else None), written = prof\<rparr>"
  using assms by (simp add: main_affine_def ebind_def at_def Let_def writeScores_def)

text \<open>
  Replacing every symbol that the map lacks by \<open>A\<close> changes no score, so the
  recurrences hold with the scores of the replaced symbols.
\<close>

lemma score_as_A:
  "score_const (as_A_const a) (as_A_const b) = score_const a b"
  "score_affine (as_A_affine a) (as_A_affine b) = score_affine a b"
  by (simp_all add: score_const_def score_affine_def lookup0_as_A_const lookup0_as_A_affine)

lemma as_A_unknown:
  "c \<notin> set ''ACGTN'' \<Longrightarrow> as_A_const c = CHR ''A''"
  "c \<notin> set ''ACGT'' \<Longrightarrow> as_A_affine c = CHR ''A''"
  by (simp_all add: as_A_const_def as_A_affine_def)

lemma fasta_reader_two_files:
  "fasta_reader [''a.fa'' \<mapsto> ''>a'' @ [newline] @ ''A'' @ [newline],
                 ''b.fa'' \<mapsto> ''>b'' @ [newline] @ ''ACC'' @ [newline]] ''a.fa'' =
     Inr [\<lparr>header = ''a'', seq = ''A''\<rparr>]"
  "fasta_reader [''a.fa'' \<mapsto> ''>a'' @ [newline] @ ''A'' @ [newline],
                 ''b.fa'' \<mapsto> ''>b'' @ [newline] @ ''ACC'' @ [newline]] ''b.fa'' =
     Inr [\<lparr>header = ''b'', seq = ''ACC''\<rparr>]"
  by (simp_all add: eval_readers)

lemma sums_A_ACC: "sums [[0, 0, 0, 0], [0, 5, 4, 4]] = Inr [5, 4, 4, 0]"
  by (simp add: eval_sums)

lemma populate_const_as_A_recurrence:
  "\<exists>R. populate_const diag penalty (makeMatrix (length seqA) (length seqB)) seqA seqB = Inr R \<and>
      populate_const diag penalty (makeMatrix (length seqA) (length seqB))
        (map as_A_const seqA) (map as_A_const seqB) = Inr R \<and>
      (\<forall>i j. 1 \<le> i \<and> i \<le> length seqA \<and> 1 \<le> j \<and> j \<le> length seqB \<and> \<not> (i = j \<and> diag) \<longrightarrow>
        R ! i ! j =
          smax 0 (smax (R ! (i - 1) ! (j - 1) +
                        score_const (as_A_const (seqA ! (i - 1))) (as_A_const (seqB ! (j - 1))))
                 (smax (R ! (i - 1) ! j - penalty) (R ! i ! (j - 1) - penalty))))"
proof -
  let ?n = "length seqA" and ?m = "length seqB"
  from populate_const_recurrence [of diag penalty seqA seqB]
  obtain R where R: "populate_const diag penalty (makeMatrix ?n ?m) seqA seqB = Inr R"
    and rec: "\<forall>i j. 1 \<le> i \<and> i \<le> ?n \<and> 1 \<le> j \<and> j \<le> ?m \<and> \<not> (i = j \<and> diag) \<longrightarrow>
        R ! i ! j =
          smax 0 (smax (R ! (i - 1) ! (j - 1) + score_const (seqA ! (i - 1)) (seqB ! (j - 1)))
                 (smax (R ! (i - 1) ! j - penalty) (R ! i ! (j - 1) - penalty)))"
    by blast
  from R have "populate_const diag penalty (makeMatrix ?n ?m)
      (map as_A_const seqA) (map as_A_const seqB) = Inr R"
    by (simp add: populate_const_def rows_const_as_A)
  with R rec show ?thesis unfolding score_as_A by blast
qed

lemma populate_affine_as_A_recurrence:
  "\<exists>M Ga Gb.
      populate_affine diag gopen ext (makeMatrix (length seqA) (length seqB))
        (makeMatrix (length seqA) (length seqB)) (makeMatrix (length seqA) (length seqB)) seqA seqB
        = Inr (M, Ga, Gb) \<and>
      populate_affine diag gopen ext (makeMatrix (length seqA) (length seqB))
        (makeMatrix (length seqA) (length seqB)) (makeMatrix (length seqA) (length seqB))
        (map as_A_affine seqA) (map as_A_affine seqB) = Inr (M, Ga, Gb) \<and>
      (\<forall>i j. 1 \<le> i \<and> i \<le> length seqA \<and> 1 \<le> j \<and> j \<le> length seqB \<and> \<not> (i = j \<and> diag) \<longrightarrow>
        M ! i ! j =
          smax (smax 0
                 (smax (M ! (i - 1) ! (j - 1) +
                        score_affine (as_A_affine (seqA ! (i - 1))) (as_A_affine (seqB ! (j - 1))))
                  (smax (Ga ! (i - 1) ! (j - 1) +
                         score_affine (as_A_affine (seqA ! (i - 1))) (as_A_affine (seqB ! (j - 1))))
                        (Gb ! (i - 1) ! (j - 1) +
                         score_affine (as_A_affine (seqA ! (i - 1))) (as_A_affine (seqB ! (j - 1)))))))
               (smax (Ga ! i ! j) (Gb ! i ! j)))"
proof -
  let ?n = "length seqA" and ?m = "length seqB"
  from populate_affine_recurrence [of diag gopen ext seqA seqB]
  obtain M Ga Gb where p: "populate_affine diag gopen ext (makeMatrix ?n ?m) (makeMatrix ?n ?m)
        (makeMatrix ?n ?m) seqA seqB = Inr (M, Ga, Gb)"
    and rec: "\<forall>i j. 1 \<le> i \<and> i \<le> ?n \<and> 1 \<le> j \<and> j \<le> ?m \<and> \<not> (i = j \<and> diag) \<longrightarrow>
        Ga ! i ! j = smax 0 (smax (M ! i ! (j - 1) - gopen - ext)
                       (smax (Ga ! i ! (j - 1) - ext) (Gb ! i ! (j - 1) - gopen - ext))) \<and>
        Gb ! i ! j = smax 0 (smax (M ! (i - 1) ! j - gopen - ext)
                       (smax (Ga ! (i - 1) ! j - gopen - ext) (Gb ! (i - 1) ! j - ext))) \<and>
        M ! i ! j =
          smax (smax 0 (smax (M ! (i - 1) ! (j - 1) + score_affine (seqA ! (i - 1)) (seqB ! (j - 1)))
                  (smax (Ga ! (i - 1) ! (j - 1) + score_affine (seqA ! (i - 1)) (seqB ! (j - 1)))
                        (Gb ! (i - 1) ! (j - 1) + score_affine (seqA ! (i - 1)) (seqB ! (j - 1))))))
               (smax (Ga ! i ! j) (Gb ! i ! j))"
    by blast
  from p have "populate_affine diag gopen ext (makeMatrix ?n ?m) (makeMatrix ?n ?m) (makeMatrix ?n ?m)
        (map as_A_affine seqA) (map as_A_affine seqB) = Inr (M, Ga, Gb)"
    by (simp add: populate_affine_def rows_affine_as_A)
  with p rec show ?thesis unfolding score_as_A by blast
qed

section \<open>The claims\<close>

subsection \<open>The affine builder against the constant builder\<close>

text \<open>
  C1, as stated, fails: with gap-open \<open>p\<close> and gap-extend 0 the affine builder charges
  a gap once, however long it is, while the constant builder charges \<open>p\<close> for every
  gap position. For the sequences \<open>A\<close> and \<open>ACC\<close>, both over the alphabet, and
  \<open>p = 1\<close>, cell \<open>(1, 3)\<close> is 3 in the constant-penalty matrix and 4 in the composite
  matrix of the affine builder.
\<close>

theorem C1_gap_open_counterexample:
  "set ''A'' \<subseteq> set ''ACGT'' \<and> set ''ACC'' \<subseteq> set ''ACGT'' \<and> (0 :: goint) \<le>s 1 \<and>
   populate_const False 1 (makeMatrix 1 3) ''A'' ''ACC'' = Inr [[0, 0, 0, 0], [0, 5, 4, 3]] \<and>
   populate_affine False 1 0 (makeMatrix 1 3) (makeMatrix 1 3) (makeMatrix 1 3) ''A'' ''ACC'' =
     Inr ([[0, 0, 0, 0], [0, 5, 4, 4]], [[0, 0, 0, 0], [0, 0, 4, 4]], [[0, 0, 0, 0], [0, 0, 0, 0]]) \<and>
   [[0, 0, 0, 0], [0, 5, 4, 4]] \<noteq> [[0, 0, 0, 0], [0, 5, 4, 3 :: goint]]"
  using populate_const_A_ACC populate_affine_A_ACC by (simp add: word_sle_eq)

text \<open>
  C1, amended. For every pair of sequences over the alphabet A, C, G, T (short enough
  that five times the shorter length is below \<open>2^63\<close>, so that no score overflows),
  every flat penalty \<open>p \<ge> 0\<close> and either setting of the diagonal flag, the composite
  matrix of the affine builder run with gap-open 0 and gap-extend \<open>p\<close> is equal, cell
  for cell, to the matrix of the constant-penalty builder run with penalty \<open>p\<close>.
\<close>

theorem C1_zero_open_equals_const:
  assumes "set seqA \<subseteq> set ''ACGT''" "set seqB \<subseteq> set ''ACGT''" "0 \<le>s p"
    "5 * min (length seqA) (length seqB) < 2 ^ 63"
  shows "\<exists>R Ga Gb.
      populate_const diag p (makeMatrix (length seqA) (length seqB)) seqA seqB = Inr R \<and>
      populate_affine diag 0 p (makeMatrix (length seqA) (length seqB))
        (makeMatrix (length seqA) (length seqB)) (makeMatrix (length seqA) (length seqB)) seqA seqB
        = Inr (R, Ga, Gb)"
proof -
  let ?n = "length seqA" and ?m = "length seqB"
  from populate_const_makeMatrix [of ?n seqA ?m seqB diag p]
  obtain R where R: "populate_const diag p (makeMatrix ?n ?m) seqA seqB = Inr R" "shaped ?n ?m R"
    "\<forall>j \<le> ?m. R ! 0 ! j = 0" "\<forall>i \<le> ?n. R ! i ! 0 = 0"
    "\<forall>i j. 1 \<le> i \<and> i \<le> ?n \<and> 1 \<le> j \<and> j \<le> ?m \<longrightarrow> R ! i ! j = val_const diag p seqA seqB R i j"
    by auto
  from populate_affine_makeMatrix [of ?n seqA ?m seqB diag 0 p]
  obtain ms where ms: "populate_affine diag 0 p (makeMatrix ?n ?m) (makeMatrix ?n ?m)
        (makeMatrix ?n ?m) seqA seqB = Inr ms" "shaped3 ?n ?m ms"
    "\<forall>j \<le> ?m. cells ms 0 j = (0, 0, 0)" "\<forall>i \<le> ?n. cells ms i 0 = (0, 0, 0)"
    "\<forall>i j. 1 \<le> i \<and> i \<le> ?n \<and> 1 \<le> j \<and> j \<le> ?m \<longrightarrow>
       cells ms i j = val_affine diag 0 p seqA seqB ms i j (0, 0, 0)"
    by auto
  obtain M Ga Gb where t: "ms = (M, Ga, Gb)" by (cases ms)
  have bound: "5 * int (min ?n ?m) < 2 ^ 63"
  proof -
    from assms(4) have "int (5 * min ?n ?m) < int (2 ^ 63)" by (simp only: of_nat_less_iff)
    then show ?thesis by simp
  qed
  have "M ! i ! j = R ! i ! j" if "i \<le> ?n" "j \<le> ?m" for i j
  proof -
    have "M ! i ! j = R ! i ! j \<and>
         0 \<le> sint (Ga ! i ! j) \<and> sint (Ga ! i ! j) \<le> sint (R ! i ! j) \<and>
         0 \<le> sint (Gb ! i ! j) \<and> sint (Gb ! i ! j) \<le> sint (R ! i ! j) \<and>
         0 \<le> sint (R ! i ! j) \<and> sint (R ! i ! j) \<le> 5 * int (min i j)"
    proof (rule affine_const_agree [where diag = diag and p = p and seqA = seqA and seqB = seqB])
      show "\<And>i j. i \<le> ?n \<Longrightarrow> j \<le> ?m \<Longrightarrow> i = 0 \<or> j = 0 \<Longrightarrow> R ! i ! j = 0"
        using R(3,4) by auto
      show "\<And>i j. 1 \<le> i \<Longrightarrow> i \<le> ?n \<Longrightarrow> 1 \<le> j \<Longrightarrow> j \<le> ?m \<Longrightarrow>
          R ! i ! j = val_const diag p seqA seqB R i j"
        using R(5) by simp
      show "\<And>i j. i \<le> ?n \<Longrightarrow> j \<le> ?m \<Longrightarrow> i = 0 \<or> j = 0 \<Longrightarrow> cells (M, Ga, Gb) i j = (0, 0, 0)"
        using ms(3,4) t by auto
      show "\<And>i j. 1 \<le> i \<Longrightarrow> i \<le> ?n \<Longrightarrow> 1 \<le> j \<Longrightarrow> j \<le> ?m \<Longrightarrow>
          cells (M, Ga, Gb) i j = val_affine diag 0 p seqA seqB (M, Ga, Gb) i j (0, 0, 0)"
        using ms(5) t by simp
    qed (use assms(1-3) bound that in simp_all)
    then show ?thesis by simp
  qed
  moreover from ms(2) t have "shaped ?n ?m M" by (simp add: shaped3_def)
  ultimately have "M = R" using R(2) by (intro shaped_eqI [of ?n ?m]) simp_all
  with R(1) ms(1) t show ?thesis by blast
qed

theorem C1_zero_open_equals_const_witness:
  "(\<exists>R Ga Gb.
      populate_const False 1 (makeMatrix (length ''A'') (length ''ACC'')) ''A'' ''ACC'' = Inr R \<and>
      populate_affine False 0 1 (makeMatrix (length ''A'') (length ''ACC''))
        (makeMatrix (length ''A'') (length ''ACC'')) (makeMatrix (length ''A'') (length ''ACC''))
        ''A'' ''ACC'' = Inr (R, Ga, Gb)) \<and>
   populate_const False 1 (makeMatrix 1 3) ''A'' ''ACC'' = Inr [[0, 0, 0, 0], [0, 5, 4, 3]] \<and>
   populate_affine False 0 1 (makeMatrix 1 3) (makeMatrix 1 3) (makeMatrix 1 3) ''A'' ''ACC'' =
     Inr ([[0, 0, 0, 0], [0, 5, 4, 3]], [[0, 0, 0, 0], [0, 0, 4, 3]], [[0, 0, 0, 0], [0, 0, 0, 0]])"
proof (intro conjI)
  show "\<exists>R Ga Gb.
      populate_const False 1 (makeMatrix (length ''A'') (length ''ACC'')) ''A'' ''ACC'' = Inr R \<and>
      populate_affine False 0 1 (makeMatrix (length ''A'') (length ''ACC''))
        (makeMatrix (length ''A'') (length ''ACC'')) (makeMatrix (length ''A'') (length ''ACC''))
        ''A'' ''ACC'' = Inr (R, Ga, Gb)"
    by (rule C1_zero_open_equals_const) (simp_all add: word_sle_eq)
  show "populate_const False 1 (makeMatrix 1 3) ''A'' ''ACC'' = Inr [[0, 0, 0, 0], [0, 5, 4, 3]]"
    by (rule populate_const_A_ACC)
  show "populate_affine False 0 1 (makeMatrix 1 3) (makeMatrix 1 3) (makeMatrix 1 3) ''A'' ''ACC'' =
     Inr ([[0, 0, 0, 0], [0, 5, 4, 3]], [[0, 0, 0, 0], [0, 0, 4, 3]], [[0, 0, 0, 0], [0, 0, 0, 0]])"
    by (rule populate_affine_zero_open_A_ACC)
qed

subsection \<open>The recurrences of the affine-gap builder\<close>

text \<open>
  C2. In the affine-gap builder, run as \<open>main\<close> runs it, the run returns three matrices
  \<open>M\<close>, \<open>Ga\<close>, \<open>Gb\<close>, and at every cell \<open>(i, j)\<close> with \<open>1 \<le> i \<le> n\<close> and
  \<open>1 \<le> j \<le> m\<close> that the diagonal flag does not exclude: \<open>Ga[i,j]\<close> is the maximum of
  0, \<open>M[i,j-1] - g_o - g_e\<close>, \<open>Ga[i,j-1] - g_e\<close> and \<open>Gb[i,j-1] - g_o - g_e\<close>;
  \<open>Gb[i,j]\<close> is the maximum of 0, \<open>M[i-1,j] - g_o - g_e\<close>, \<open>Ga[i-1,j] - g_o - g_e\<close>
  and \<open>Gb[i-1,j] - g_e\<close>; and \<open>M[i,j]\<close> holds the maximum of the match value
  \<open>max(0, M[i-1,j-1] + s, Ga[i-1,j-1] + s, Gb[i-1,j-1] + s)\<close>, of \<open>Ga[i,j]\<close> and of
  \<open>Gb[i,j]\<close>. The \<open>M\<close> on the right-hand sides is this same final matrix: the composite
  value was stored before the traversal advanced, so it is what later cells read. This
  composite \<open>M\<close> is also what the program puts out: \<open>sums\<close> returns a profile on it, and
  every run of \<open>main\<close> whose flags carry these gap costs and this diagonal flag, whose two
  files give these sequences as their first records and whose output file can be created,
  dumps \<open>M\<close> itself when the matrix flag is set and writes the diagonal profile of \<open>M\<close>.
\<close>

theorem C2_affine_recurrence:
  assumes "1 \<le> i" "i \<le> length seqA" "1 \<le> j" "j \<le> length seqB" "\<not> (i = j \<and> diag)"
  shows "\<exists>M Ga Gb.
      populate_affine diag gopen ext (makeMatrix (length seqA) (length seqB))
        (makeMatrix (length seqA) (length seqB)) (makeMatrix (length seqA) (length seqB)) seqA seqB
        = Inr (M, Ga, Gb) \<and>
      Ga ! i ! j = smax 0 (smax (M ! i ! (j - 1) - gopen - ext)
                     (smax (Ga ! i ! (j - 1) - ext) (Gb ! i ! (j - 1) - gopen - ext))) \<and>
      Gb ! i ! j = smax 0 (smax (M ! (i - 1) ! j - gopen - ext)
                     (smax (Ga ! (i - 1) ! j - gopen - ext) (Gb ! (i - 1) ! j - ext))) \<and>
      M ! i ! j =
        smax (smax 0 (smax (M ! (i - 1) ! (j - 1) + score_affine (seqA ! (i - 1)) (seqB ! (j - 1)))
                (smax (Ga ! (i - 1) ! (j - 1) + score_affine (seqA ! (i - 1)) (seqB ! (j - 1)))
                      (Gb ! (i - 1) ! (j - 1) + score_affine (seqA ! (i - 1)) (seqB ! (j - 1))))))
             (smax (Ga ! i ! j) (Gb ! i ! j)) \<and>
      (\<exists>prof. sums M = Inr prof \<and>
        (\<forall>flags fs ra rsa rb rsb.
           affine_a flags \<noteq> [] \<and> affine_b flags \<noteq> [] \<and>
           affine_d flags = diag \<and> affine_o flags = gopen \<and> affine_e flags = ext \<and>
           fasta_reader fs (affine_a flags) = Inr (ra # rsa) \<and> seq ra = seqA \<and>
           fasta_reader fs (affine_b flags) = Inr (rb # rsb) \<and> seq rb = seqB \<longrightarrow>
           main_affine flags fs True =
             Inr \<lparr>printed = (if affine_m flags then Some M else None), written = prof\<rparr>))"
proof -
  let ?n = "length seqA" and ?m = "length seqB"
  from populate_affine_recurrence [of diag gopen ext seqA seqB]
  obtain M Ga Gb where p: "populate_affine diag gopen ext (makeMatrix ?n ?m) (makeMatrix ?n ?m)
        (makeMatrix ?n ?m) seqA seqB = Inr (M, Ga, Gb)"
    and sh: "shaped ?n ?m M"
    and rec: "\<forall>i j. 1 \<le> i \<and> i \<le> ?n \<and> 1 \<le> j \<and> j \<le> ?m \<and> \<not> (i = j \<and> diag) \<longrightarrow>
        Ga ! i ! j = smax 0 (smax (M ! i ! (j - 1) - gopen - ext)
                       (smax (Ga ! i ! (j - 1) - ext) (Gb ! i ! (j - 1) - gopen - ext))) \<and>
        Gb ! i ! j = smax 0 (smax (M ! (i - 1) ! j - gopen - ext)
                       (smax (Ga ! (i - 1) ! j - gopen - ext) (Gb ! (i - 1) ! j - ext))) \<and>
        M ! i ! j =
          smax (smax 0 (smax (M ! (i - 1) ! (j - 1) + score_affine (seqA ! (i - 1)) (seqB ! (j - 1)))
                  (smax (Ga ! (i - 1) ! (j - 1) + score_affine (seqA ! (i - 1)) (seqB ! (j - 1)))
                        (Gb ! (i - 1) ! (j - 1) + score_affine (seqA ! (i - 1)) (seqB ! (j - 1))))))
               (smax (Ga ! i ! j) (Gb ! i ! j))"
    by blast
  from sums_shaped [OF sh] obtain prof where prof: "sums M = Inr prof" by blast
  have run: "main_affine flags fs True =
        Inr \<lparr>printed = (if affine_m flags then Some M else None), written = prof\<rparr>"
    if h: "affine_a flags \<noteq> [] \<and> affine_b flags \<noteq> [] \<and>
           affine_d flags = diag \<and> affine_o flags = gopen \<and> affine_e flags = ext \<and>
           fasta_reader fs (affine_a flags) = Inr (ra # rsa) \<and> seq ra = seqA \<and>
           fasta_reader fs (affine_b flags) = Inr (rb # rsb) \<and> seq rb = seqB"
    for flags :: affine_flags and fs ra rsa rb rsb
  proof (rule main_affine_run [where ra = ra and rsa = rsa and rb = rb and rsb = rsb and Ga = Ga and Gb = Gb])
    show "affine_a flags \<noteq> []" "affine_b flags \<noteq> []"
      "fasta_reader fs (affine_a flags) = Inr (ra # rsa)"
      "fasta_reader fs (affine_b flags) = Inr (rb # rsb)" using h by simp_all
    show "populate_affine (affine_d flags) (affine_o flags) (affine_e flags)
       (makeMatrix (length (seq ra)) (length (seq rb))) (makeMatrix (length (seq ra)) (length (seq rb)))
       (makeMatrix (length (seq ra)) (length (seq rb))) (seq ra) (seq rb) = Inr (M, Ga, Gb)"
      using h p by simp
    show "sums M = Inr prof" by (rule prof)
  qed
  from rec assms have "Ga ! i ! j = smax 0 (smax (M ! i ! (j - 1) - gopen - ext)
                       (smax (Ga ! i ! (j - 1) - ext) (Gb ! i ! (j - 1) - gopen - ext))) \<and>
        Gb ! i ! j = smax 0 (smax (M ! (i - 1) ! j - gopen - ext)
                       (smax (Ga ! (i - 1) ! j - gopen - ext) (Gb ! (i - 1) ! j - ext))) \<and>
        M ! i ! j =
          smax (smax 0 (smax (M ! (i - 1) ! (j - 1) + score_affine (seqA ! (i - 1)) (seqB ! (j - 1)))
                  (smax (Ga ! (i - 1) ! (j - 1) + score_affine (seqA ! (i - 1)) (seqB ! (j - 1)))
                        (Gb ! (i - 1) ! (j - 1) + score_affine (seqA ! (i - 1)) (seqB ! (j - 1))))))
               (smax (Ga ! i ! j) (Gb ! i ! j))"
    by blast
  with p prof run show ?thesis by blast
qed

theorem C2_affine_recurrence_witness:
  "populate_affine False 1 0 (makeMatrix 1 3) (makeMatrix 1 3) (makeMatrix 1 3) ''A'' ''ACC'' =
     Inr ([[0, 0, 0, 0], [0, 5, 4, 4]], [[0, 0, 0, 0], [0, 0, 4, 4]], [[0, 0, 0, 0], [0, 0, 0, 0]]) \<and>
   [[0, 0, 0, 0], [0, 0, 4, 4 :: goint]] ! 1 ! 3 =
     smax 0 (smax ([[0, 0, 0, 0], [0, 5, 4, 4]] ! 1 ! (3 - 1) - 1 - 0)
       (smax ([[0, 0, 0, 0], [0, 0, 4, 4]] ! 1 ! (3 - 1) - 0)
             ([[0, 0, 0, 0], [0, 0, 0, 0]] ! 1 ! (3 - 1) - 1 - 0))) \<and>
   [[0, 0, 0, 0], [0, 0, 0, 0 :: goint]] ! 1 ! 3 =
     smax 0 (smax ([[0, 0, 0, 0], [0, 5, 4, 4]] ! (1 - 1) ! 3 - 1 - 0)
       (smax ([[0, 0, 0, 0], [0, 0, 4, 4]] ! (1 - 1) ! 3 - 1 - 0)
             ([[0, 0, 0, 0], [0, 0, 0, 0]] ! (1 - 1) ! 3 - 0))) \<and>
   [[0, 0, 0, 0], [0, 5, 4, 4 :: goint]] ! 1 ! 3 =
     smax (smax 0 (smax ([[0, 0, 0, 0], [0, 5, 4, 4]] ! (1 - 1) ! (3 - 1) +
                         score_affine (''A'' ! (1 - 1)) (''ACC'' ! (3 - 1)))
             (smax ([[0, 0, 0, 0], [0, 0, 4, 4]] ! (1 - 1) ! (3 - 1) +
                      score_affine (''A'' ! (1 - 1)) (''ACC'' ! (3 - 1)))
                   ([[0, 0, 0, 0], [0, 0, 0, 0]] ! (1 - 1) ! (3 - 1) +
                      score_affine (''A'' ! (1 - 1)) (''ACC'' ! (3 - 1))))))
          (smax ([[0, 0, 0, 0], [0, 0, 4, 4]] ! 1 ! 3) ([[0, 0, 0, 0], [0, 0, 0, 0]] ! 1 ! 3)) \<and>
   sums [[0, 0, 0, 0], [0, 5, 4, 4]] = Inr [5, 4, 4, 0] \<and>
   main_affine \<lparr>affine_a = ''a.fa'', affine_b = ''b.fa'', affine_d = False, affine_o = 1,
       affine_e = 0, affine_m = True, affine_out = ''out.txt''\<rparr>
     [''a.fa'' \<mapsto> ''>a'' @ [newline] @ ''A'' @ [newline],
      ''b.fa'' \<mapsto> ''>b'' @ [newline] @ ''ACC'' @ [newline]] True =
     Inr \<lparr>printed = Some [[0, 0, 0, 0], [0, 5, 4, 4]], written = [5, 4, 4, 0]\<rparr>"
proof -
  let ?flags = "\<lparr>affine_a = ''a.fa'', affine_b = ''b.fa'', affine_d = False, affine_o = 1,
       affine_e = 0, affine_m = True, affine_out = ''out.txt''\<rparr>"
  let ?fs = "[''a.fa'' \<mapsto> ''>a'' @ [newline] @ ''A'' @ [newline],
      ''b.fa'' \<mapsto> ''>b'' @ [newline] @ ''ACC'' @ [newline]]"
  have len: "length ''A'' = 1" "length ''ACC'' = 3" by simp_all
  have "1 \<le> (1::nat)" "(1::nat) \<le> length ''A''" "1 \<le> (3::nat)" "(3::nat) \<le> length ''ACC''"
    "\<not> ((1::nat) = 3 \<and> False)" by simp_all
  from C2_affine_recurrence [OF this, of 1 0]
  obtain M Ga Gb prof where
    p: "populate_affine False 1 0 (makeMatrix (length ''A'') (length ''ACC''))
        (makeMatrix (length ''A'') (length ''ACC'')) (makeMatrix (length ''A'') (length ''ACC''))
        ''A'' ''ACC'' = Inr (M, Ga, Gb)"
    and r1: "Ga ! 1 ! 3 = smax 0 (smax (M ! 1 ! (3 - 1) - 1 - 0)
                     (smax (Ga ! 1 ! (3 - 1) - 0) (Gb ! 1 ! (3 - 1) - 1 - 0)))"
    and r2: "Gb ! 1 ! 3 = smax 0 (smax (M ! (1 - 1) ! 3 - 1 - 0)
                     (smax (Ga ! (1 - 1) ! 3 - 1 - 0) (Gb ! (1 - 1) ! 3 - 0)))"
    and r3: "M ! 1 ! 3 =
        smax (smax 0 (smax (M ! (1 - 1) ! (3 - 1) + score_affine (''A'' ! (1 - 1)) (''ACC'' ! (3 - 1)))
                (smax (Ga ! (1 - 1) ! (3 - 1) + score_affine (''A'' ! (1 - 1)) (''ACC'' ! (3 - 1)))
                      (Gb ! (1 - 1) ! (3 - 1) + score_affine (''A'' ! (1 - 1)) (''ACC'' ! (3 - 1))))))
             (smax (Ga ! 1 ! 3) (Gb ! 1 ! 3))"
    and s: "sums M = Inr prof"
    and run: "\<forall>flags fs ra rsa rb rsb.
           affine_a flags \<noteq> [] \<and> affine_b flags \<noteq> [] \<and>
           affine_d flags = False \<and> affine_o flags = 1 \<and> affine_e flags = 0 \<and>
           fasta_reader fs (affine_a flags) = Inr (ra # rsa) \<and> seq ra = ''A'' \<and>
           fasta_reader fs (affine_b flags) = Inr (rb # rsb) \<and> seq rb = ''ACC'' \<longrightarrow>
           main_affine flags fs True =
             Inr \<lparr>printed = (if affine_m flags then Some M else None), written = prof\<rparr>"
    by blast
  from p have "populate_affine False 1 0 (makeMatrix 1 3) (makeMatrix 1 3) (makeMatrix 1 3)
      ''A'' ''ACC'' = Inr (M, Ga, Gb)"
    by (simp only: len)
  with populate_affine_A_ACC
  have eq: "M = [[0, 0, 0, 0], [0, 5, 4, 4]]" "Ga = [[0, 0, 0, 0], [0, 0, 4, 4]]"
    "Gb = [[0, 0, 0, 0], [0, 0, 0, 0]]"
    by simp_all
  from s sums_A_ACC have pr: "prof = [5, 4, 4, 0]" by (simp add: eq)
  have "affine_a ?flags \<noteq> [] \<and> affine_b ?flags \<noteq> [] \<and>
           affine_d ?flags = False \<and> affine_o ?flags = 1 \<and> affine_e ?flags = 0 \<and>
           fasta_reader ?fs (affine_a ?flags) = Inr (\<lparr>header = ''a'', seq = ''A''\<rparr> # []) \<and>
           seq \<lparr>header = ''a'', seq = ''A''\<rparr> = ''A'' \<and>
           fasta_reader ?fs (affine_b ?flags) = Inr (\<lparr>header = ''b'', seq = ''ACC''\<rparr> # []) \<and>
           seq \<lparr>header = ''b'', seq = ''ACC''\<rparr> = ''ACC''"
    using fasta_reader_two_files by simp
  with run have "main_affine ?flags ?fs True =
      Inr \<lparr>printed = (if affine_m ?flags then Some M else None), written = prof\<rparr>"
    by blast
  then have mn: "main_affine ?flags ?fs True =
      Inr \<lparr>printed = Some [[0, 0, 0, 0], [0, 5, 4, 4]], written = [5, 4, 4, 0]\<rparr>"
    by (simp add: eq pr)
  note c = populate_affine_A_ACC r1 [unfolded eq] r2 [unfolded eq] r3 [unfolded eq] sums_A_ACC mn
  show ?thesis by (intro conjI c)
qed

subsection \<open>The recurrence of the constant-penalty builder\<close>

text \<open>
  C3. In the constant-penalty builder, run as \<open>main\<close> runs it (on
  \<open>makeMatrix n m\<close> with \<open>n\<close> and \<open>m\<close> the lengths of the two sequences), the
  run returns a matrix \<open>R\<close>, and for every cell \<open>(i, j)\<close> with \<open>1 \<le> i \<le> n\<close> and
  \<open>1 \<le> j \<le> m\<close> that the diagonal flag does not exclude, the stored value is the
  signed maximum of 0, of the diagonal predecessor plus the substitution score of the
  symbols \<open>seqA[i]\<close> and \<open>seqB[j]\<close> (1-indexed), of \<open>R[i-1][j]\<close> minus the penalty and of
  \<open>R[i][j-1]\<close> minus the penalty; row 0 and column 0 of \<open>R\<close> are 0. Sums and
  differences are those of 64-bit integers.
\<close>

theorem C3_const_recurrence:
  assumes "1 \<le> i" "i \<le> length seqA" "1 \<le> j" "j \<le> length seqB" "\<not> (i = j \<and> diag)"
  shows "\<exists>R. populate_const diag penalty (makeMatrix (length seqA) (length seqB)) seqA seqB = Inr R \<and>
           R ! i ! j =
             smax 0 (smax (R ! (i - 1) ! (j - 1) + score_const (seqA ! (i - 1)) (seqB ! (j - 1)))
                    (smax (R ! (i - 1) ! j - penalty) (R ! i ! (j - 1) - penalty))) \<and>
           (\<forall>j' \<le> length seqB. R ! 0 ! j' = 0) \<and> (\<forall>i' \<le> length seqA. R ! i' ! 0 = 0)"
proof -
  obtain R where R: "populate_const diag penalty (makeMatrix (length seqA) (length seqB)) seqA seqB = Inr R \<and>
      shaped (length seqA) (length seqB) R \<and>
      (\<forall>j \<le> length seqB. R ! 0 ! j = 0) \<and> (\<forall>i \<le> length seqA. R ! i ! 0 = 0) \<and>
      (\<forall>i j. 1 \<le> i \<and> i \<le> length seqA \<and> 1 \<le> j \<and> j \<le> length seqB \<longrightarrow>
         R ! i ! j = val_const diag penalty seqA seqB R i j)"
    using populate_const_makeMatrix [of "length seqA" seqA "length seqB" seqB diag penalty] by auto
  then have "R ! i ! j = val_const diag penalty seqA seqB R i j"
    using assms by blast
  also have "\<dots> = smax 0 (smax (R ! (i - 1) ! (j - 1) + score_const (seqA ! (i - 1)) (seqB ! (j - 1)))
                    (smax (R ! (i - 1) ! j - penalty) (R ! i ! (j - 1) - penalty)))"
    using assms(5) by (simp only: val_const_def maxScore_const_smax if_False)
  finally show ?thesis using R by blast
qed


theorem C3_const_recurrence_witness:
  "(\<exists>R. populate_const False 1 (makeMatrix (length ''A'') (length ''ACC'')) ''A'' ''ACC'' = Inr R \<and>
        R ! 1 ! 2 =
          smax 0 (smax (R ! (1 - 1) ! (2 - 1) + score_const (''A'' ! (1 - 1)) (''ACC'' ! (2 - 1)))
                 (smax (R ! (1 - 1) ! 2 - 1) (R ! 1 ! (2 - 1) - 1))) \<and>
        (\<forall>j' \<le> length ''ACC''. R ! 0 ! j' = 0) \<and> (\<forall>i' \<le> length ''A''. R ! i' ! 0 = 0)) \<and>
   populate_const False 1 (makeMatrix 1 3) ''A'' ''ACC'' = Inr [[0, 0, 0, 0], [0, 5, 4, 3]]"
proof
  show "\<exists>R. populate_const False 1 (makeMatrix (length ''A'') (length ''ACC'')) ''A'' ''ACC'' = Inr R \<and>
        R ! 1 ! 2 =
          smax 0 (smax (R ! (1 - 1) ! (2 - 1) + score_const (''A'' ! (1 - 1)) (''ACC'' ! (2 - 1)))
                 (smax (R ! (1 - 1) ! 2 - 1) (R ! 1 ! (2 - 1) - 1))) \<and>
        (\<forall>j' \<le> length ''ACC''. R ! 0 ! j' = 0) \<and> (\<forall>i' \<le> length ''A''. R ! i' ! 0 = 0)"
    by (rule C3_const_recurrence) simp_all
  show "populate_const False 1 (makeMatrix 1 3) ''A'' ''ACC'' = Inr [[0, 0, 0, 0], [0, 5, 4, 3]]"
    by (rule populate_const_A_ACC)
qed

subsection \<open>The floor at 0\<close>

text \<open>
  C4. For every pair of sequences (any bytes), every penalty (any 64-bit value) and
  either setting of the diagonal flag, both builders, run as \<open>main\<close> runs them, return,
  and every cell of every matrix they produce is at least 0 in the signed order: the one
  matrix of the constant-penalty builder, and the three matrices of the affine builder,
  the composite one included.
\<close>

theorem C4_cells_nonnegative:
  "(\<exists>R. populate_const diag penalty (makeMatrix (length seqA) (length seqB)) seqA seqB = Inr R \<and>
        (\<forall>row \<in> set R. \<forall>x \<in> set row. 0 \<le>s x)) \<and>
   (\<exists>M Ga Gb. populate_affine diag gopen ext (makeMatrix (length seqA) (length seqB))
        (makeMatrix (length seqA) (length seqB)) (makeMatrix (length seqA) (length seqB)) seqA seqB
        = Inr (M, Ga, Gb) \<and>
        (\<forall>row \<in> set M. \<forall>x \<in> set row. 0 \<le>s x) \<and>
        (\<forall>row \<in> set Ga. \<forall>x \<in> set row. 0 \<le>s x) \<and>
        (\<forall>row \<in> set Gb. \<forall>x \<in> set row. 0 \<le>s x))"
proof
  let ?n = "length seqA" and ?m = "length seqB"
  from populate_const_nonneg [of ?n seqA ?m seqB diag penalty]
  obtain R where R: "populate_const diag penalty (makeMatrix ?n ?m) seqA seqB = Inr R" "shaped ?n ?m R"
    "\<And>i j. i \<le> ?n \<Longrightarrow> j \<le> ?m \<Longrightarrow> 0 \<le>s R ! i ! j"
    by auto
  from all_cells [of ?n ?m R "\<lambda>x. 0 \<le>s x", OF R(2,3)] R(1)
  show "\<exists>R. populate_const diag penalty (makeMatrix ?n ?m) seqA seqB = Inr R \<and>
        (\<forall>row \<in> set R. \<forall>x \<in> set row. 0 \<le>s x)"
    by blast
next
  let ?n = "length seqA" and ?m = "length seqB"
  from populate_affine_nonneg [of ?n seqA ?m seqB diag gopen ext]
  obtain M Ga Gb where A: "populate_affine diag gopen ext (makeMatrix ?n ?m) (makeMatrix ?n ?m)
        (makeMatrix ?n ?m) seqA seqB = Inr (M, Ga, Gb)"
    "shaped ?n ?m M" "shaped ?n ?m Ga" "shaped ?n ?m Gb"
    "\<And>i j. i \<le> ?n \<Longrightarrow> j \<le> ?m \<Longrightarrow> 0 \<le>s M ! i ! j"
    "\<And>i j. i \<le> ?n \<Longrightarrow> j \<le> ?m \<Longrightarrow> 0 \<le>s Ga ! i ! j"
    "\<And>i j. i \<le> ?n \<Longrightarrow> j \<le> ?m \<Longrightarrow> 0 \<le>s Gb ! i ! j"
    by auto
  from all_cells [of ?n ?m M "\<lambda>x. 0 \<le>s x", OF A(2,5)]
    all_cells [of ?n ?m Ga "\<lambda>x. 0 \<le>s x", OF A(3,6)]
    all_cells [of ?n ?m Gb "\<lambda>x. 0 \<le>s x", OF A(4,7)] A(1)
  show "\<exists>M Ga Gb. populate_affine diag gopen ext (makeMatrix ?n ?m) (makeMatrix ?n ?m)
        (makeMatrix ?n ?m) seqA seqB = Inr (M, Ga, Gb) \<and>
        (\<forall>row \<in> set M. \<forall>x \<in> set row. 0 \<le>s x) \<and>
        (\<forall>row \<in> set Ga. \<forall>x \<in> set row. 0 \<le>s x) \<and>
        (\<forall>row \<in> set Gb. \<forall>x \<in> set row. 0 \<le>s x)"
    by blast
qed

theorem C4_cells_nonnegative_witness:
  "((\<exists>R. populate_const False (- 9223372036854775808) (makeMatrix (length ''A'') (length ''ACC''))
          ''A'' ''ACC'' = Inr R \<and>
        (\<forall>row \<in> set R. \<forall>x \<in> set row. 0 \<le>s x)) \<and>
    (\<exists>M Ga Gb. populate_affine False 1 0 (makeMatrix (length ''A'') (length ''ACC''))
        (makeMatrix (length ''A'') (length ''ACC'')) (makeMatrix (length ''A'') (length ''ACC''))
        ''A'' ''ACC'' = Inr (M, Ga, Gb) \<and>
        (\<forall>row \<in> set M. \<forall>x \<in> set row. 0 \<le>s x) \<and>
        (\<forall>row \<in> set Ga. \<forall>x \<in> set row. 0 \<le>s x) \<and>
        (\<forall>row \<in> set Gb. \<forall>x \<in> set row. 0 \<le>s x))) \<and>
   populate_const False (- 9223372036854775808) (makeMatrix 1 3) ''A'' ''ACC'' =
     Inr [[0, 0, 0, 0], [0, 5, 0, 0]] \<and>
   populate_affine False 1 0 (makeMatrix 1 3) (makeMatrix 1 3) (makeMatrix 1 3) ''A'' ''ACC'' =
     Inr ([[0, 0, 0, 0], [0, 5, 4, 4]], [[0, 0, 0, 0], [0, 0, 4, 4]], [[0, 0, 0, 0], [0, 0, 0, 0]])"
  using C4_cells_nonnegative [where diag = False and penalty = "- 9223372036854775808"
      and seqA = "''A''" and seqB = "''ACC''" and gopen = 1 and ext = 0]
    populate_const_min_penalty populate_affine_A_ACC
  by blast

subsection \<open>Diagonal summation\<close>

text \<open>
  C5. For every matrix of \<open>n + 1\<close> rows and \<open>m + 1\<close> columns, \<open>sums\<close> returns a profile
  of length exactly \<open>m + 1\<close>, whatever \<open>n\<close> is, whose entry \<open>d\<close>, for every
  \<open>0 \<le> d \<le> m\<close> (none is skipped), is the sum of the cells \<open>(i, i + d)\<close> over all
  \<open>i \<le> n\<close> with \<open>i + d \<le> m\<close>. Cells below the main diagonal never contribute: a
  matrix of the same shape that agrees with \<open>M\<close> on all cells with \<open>i \<le> j\<close> has the
  same profile. The sum is that of 64-bit integers.
\<close>

theorem C5_sums_profile:
  assumes "shaped n m M"
  shows "\<exists>prof. sums M = Inr prof \<and> length prof = m + 1 \<and>
           (\<forall>d \<le> m. prof ! d = (\<Sum>i \<in> {i. i \<le> n \<and> i + d \<le> m}. M ! i ! (i + d))) \<and>
           (\<forall>M'. shaped n m M' \<and> (\<forall>i j. i \<le> j \<longrightarrow> M' ! i ! j = M ! i ! j) \<longrightarrow> sums M' = Inr prof)"
proof -
  from sums_shaped [OF assms] obtain prof where p: "sums M = Inr prof" "length prof = m + 1"
    "\<And>d. d \<le> m \<Longrightarrow> prof ! d = (\<Sum>i \<in> diag_cells n m 0 d. M ! i ! (i + d))"
    by blast
  have "sums M' = Inr prof" if s: "shaped n m M'" and e: "\<forall>i j. i \<le> j \<longrightarrow> M' ! i ! j = M ! i ! j" for M'
  proof -
    from sums_shaped [OF s] obtain prof' where p': "sums M' = Inr prof'" "length prof' = m + 1"
      "\<And>d. d \<le> m \<Longrightarrow> prof' ! d = (\<Sum>i \<in> diag_cells n m 0 d. M' ! i ! (i + d))"
      by blast
    have "prof' = prof"
    proof (rule nth_equalityI)
      show "length prof' = length prof" using p(2) p'(2) by simp
    next
      fix d assume "d < length prof'"
      with p'(2) have d: "d \<le> m" by simp
      have "(\<Sum>i \<in> diag_cells n m 0 d. M' ! i ! (i + d)) = (\<Sum>i \<in> diag_cells n m 0 d. M ! i ! (i + d))"
        using e by (intro sum.cong) simp_all
      with p(3) [OF d] p'(3) [OF d] show "prof' ! d = prof ! d" by simp
    qed
    with p'(1) show ?thesis by simp
  qed
  with p show ?thesis by (auto simp: diag_cells_0)
qed

theorem C5_sums_profile_witness:
  "(\<exists>prof. sums [[1, 2, 3], [4, 5, 6]] = Inr prof \<and> length prof = 2 + 1 \<and>
           (\<forall>d \<le> 2. prof ! d = (\<Sum>i \<in> {i. i \<le> 1 \<and> i + d \<le> 2}. [[1, 2, 3], [4, 5, 6]] ! i ! (i + d))) \<and>
           (\<forall>M'. shaped 1 2 M' \<and> (\<forall>i j. i \<le> j \<longrightarrow> M' ! i ! j = [[1, 2, 3], [4, 5, 6]] ! i ! j) \<longrightarrow>
              sums M' = Inr prof)) \<and>
   shaped 1 2 [[1, 2, 3], [4, 5, 6]] \<and>
   sums [[1, 2, 3], [4, 5, 6]] = Inr [6, 8, 3]"
proof -
  have s: "shaped 1 2 [[1, 2, 3], [4, 5, 6]]"
    by (simp add: shaped_def eval_nat_numeral)
  from C5_sums_profile [OF s] s sums_example show ?thesis by blast
qed

text \<open>
  C6. Diagonal summation is linear: for two matrices of the same shape, \<open>n + 1\<close> by
  \<open>m + 1\<close>, the profile of their cell-wise sum is the entry-wise sum of their two
  profiles.
\<close>

theorem C6_sums_linear:
  assumes "shaped n m A" "shaped n m B"
  shows "\<exists>pa pb. sums A = Inr pa \<and> sums B = Inr pb \<and>
           sums (cellwise_sum A B) = Inr (map2 (+) pa pb)"
proof -
  from sums_shaped [OF assms(1)] obtain pa where pa: "sums A = Inr pa" "length pa = m + 1"
    "\<And>d. d \<le> m \<Longrightarrow> pa ! d = (\<Sum>i \<in> diag_cells n m 0 d. A ! i ! (i + d))"
    by blast
  from sums_shaped [OF assms(2)] obtain pb where pb: "sums B = Inr pb" "length pb = m + 1"
    "\<And>d. d \<le> m \<Longrightarrow> pb ! d = (\<Sum>i \<in> diag_cells n m 0 d. B ! i ! (i + d))"
    by blast
  from sums_shaped [OF cellwise_sum_shaped(1) [OF assms]]
  obtain pc where pc: "sums (cellwise_sum A B) = Inr pc" "length pc = m + 1"
    "\<And>d. d \<le> m \<Longrightarrow> pc ! d = (\<Sum>i \<in> diag_cells n m 0 d. cellwise_sum A B ! i ! (i + d))"
    by blast
  have "pc = map2 (+) pa pb"
  proof (rule nth_equalityI)
    show "length pc = length (map2 (+) pa pb)" using pa(2) pb(2) pc(2) by simp
  next
    fix d assume "d < length pc"
    with pc(2) have d: "d \<le> m" by simp
    have "pc ! d = (\<Sum>i \<in> diag_cells n m 0 d. A ! i ! (i + d) + B ! i ! (i + d))"
      unfolding pc(3) [OF d]
      by (intro sum.cong refl cellwise_sum_shaped(2) [OF assms]) (simp_all add: diag_cells_def)
    also have "\<dots> = pa ! d + pb ! d"
      by (simp only: sum.distrib pa(3) [OF d] pb(3) [OF d])
    also have "\<dots> = map2 (+) pa pb ! d" using d pa(2) pb(2) by simp
    finally show "pc ! d = map2 (+) pa pb ! d" .
  qed
  with pa(1) pb(1) pc(1) show ?thesis by simp
qed

theorem C6_sums_linear_witness:
  "shaped 1 1 [[1, 2], [3, 4]] \<and> shaped 1 1 [[10, 20], [30, 40]] \<and>
   sums [[1, 2], [3, 4]] = Inr [5, 2] \<and> sums [[10, 20], [30, 40]] = Inr [50, 20] \<and>
   sums (cellwise_sum [[1, 2], [3, 4]] [[10, 20], [30, 40]]) = Inr (map2 (+) [5, 2] [50, 20])"
proof -
  have a: "shaped 1 1 [[1, 2], [3, 4]]" and b: "shaped 1 1 [[10, 20], [30, 40]]"
    by (simp_all add: shaped_def)
  from C6_sums_linear [OF a b] a b show ?thesis
    by (simp add: sums_example_A sums_example_B)
qed

subsection \<open>The excluded diagonal\<close>

text \<open>
  C7. With the diagonal-exclusion flag set, for every \<open>i\<close> with \<open>1 \<le> i \<le> min(n, m)\<close>
  the cell \<open>(i, i)\<close> of the output matrix is exactly 0, for both builders (for the affine
  builder the output matrix is the composite \<open>M\<close>), whatever the sequences and the
  penalties are.
\<close>

theorem C7_diagonal_zero:
  assumes "1 \<le> i" "i \<le> min (length seqA) (length seqB)"
  shows "(\<exists>R. populate_const True penalty (makeMatrix (length seqA) (length seqB)) seqA seqB = Inr R \<and>
            R ! i ! i = 0) \<and>
         (\<exists>M Ga Gb. populate_affine True gopen ext (makeMatrix (length seqA) (length seqB))
            (makeMatrix (length seqA) (length seqB)) (makeMatrix (length seqA) (length seqB)) seqA seqB
            = Inr (M, Ga, Gb) \<and> M ! i ! i = 0)"
proof
  let ?n = "length seqA" and ?m = "length seqB"
  from populate_const_makeMatrix [of ?n seqA ?m seqB True penalty]
  obtain R where R: "populate_const True penalty (makeMatrix ?n ?m) seqA seqB = Inr R"
    "\<forall>i j. 1 \<le> i \<and> i \<le> ?n \<and> 1 \<le> j \<and> j \<le> ?m \<longrightarrow> R ! i ! j = val_const True penalty seqA seqB R i j"
    by auto
  from R(2) assms have "R ! i ! i = val_const True penalty seqA seqB R i i" by simp
  then have "R ! i ! i = 0" by (simp add: val_const_def)
  with R(1) show "\<exists>R. populate_const True penalty (makeMatrix ?n ?m) seqA seqB = Inr R \<and> R ! i ! i = 0"
    by blast
next
  let ?n = "length seqA" and ?m = "length seqB"
  from populate_affine_makeMatrix [of ?n seqA ?m seqB True gopen ext]
  obtain ms where ms: "populate_affine True gopen ext (makeMatrix ?n ?m) (makeMatrix ?n ?m)
        (makeMatrix ?n ?m) seqA seqB = Inr ms"
    "\<forall>i j. 1 \<le> i \<and> i \<le> ?n \<and> 1 \<le> j \<and> j \<le> ?m \<longrightarrow>
       cells ms i j = val_affine True gopen ext seqA seqB ms i j (0, 0, 0)"
    by auto
  obtain M Ga Gb where t: "ms = (M, Ga, Gb)" by (cases ms)
  from ms(2) assms have "cells ms i i = val_affine True gopen ext seqA seqB ms i i (0, 0, 0)" by simp
  then have "M ! i ! i = 0" by (simp add: val_affine_def cells_def t)
  with ms(1) t show "\<exists>M Ga Gb. populate_affine True gopen ext (makeMatrix ?n ?m) (makeMatrix ?n ?m)
        (makeMatrix ?n ?m) seqA seqB = Inr (M, Ga, Gb) \<and> M ! i ! i = 0"
    by blast
qed

theorem C7_diagonal_zero_witness:
  "((\<exists>R. populate_const True 1 (makeMatrix (length ''AC'') (length ''ACC'')) ''AC'' ''ACC'' = Inr R \<and>
            R ! 2 ! 2 = 0) \<and>
    (\<exists>M Ga Gb. populate_affine True 1 0 (makeMatrix (length ''AC'') (length ''ACC''))
            (makeMatrix (length ''AC'') (length ''ACC'')) (makeMatrix (length ''AC'') (length ''ACC''))
            ''AC'' ''ACC'' = Inr (M, Ga, Gb) \<and> M ! 2 ! 2 = 0)) \<and>
   populate_const True 1 (makeMatrix 2 3) ''AC'' ''ACC'' =
     Inr [[0, 0, 0, 0], [0, 0, 0, 0], [0, 0, 0, 5]]"
proof
  show "(\<exists>R. populate_const True 1 (makeMatrix (length ''AC'') (length ''ACC'')) ''AC'' ''ACC'' = Inr R \<and>
            R ! 2 ! 2 = 0) \<and>
    (\<exists>M Ga Gb. populate_affine True 1 0 (makeMatrix (length ''AC'') (length ''ACC''))
            (makeMatrix (length ''AC'') (length ''ACC'')) (makeMatrix (length ''AC'') (length ''ACC''))
            ''AC'' ''ACC'' = Inr (M, Ga, Gb) \<and> M ! 2 ! 2 = 0)"
    by (rule C7_diagonal_zero) simp_all
  show "populate_const True 1 (makeMatrix 2 3) ''AC'' ''ACC'' =
     Inr [[0, 0, 0, 0], [0, 0, 0, 0], [0, 0, 0, 5]]"
    by (rule populate_const_diag_example)
qed

subsection \<open>Files without records\<close>

text \<open>
  C8. If either input file yields zero parsed FASTA records, the run ends in an error and
  writes no profile: the index \<^verbatim>\<open>[0]\<close> of the first record is bounds-checked by the Go
  runtime, and with no record the check panics before \<open>populate\<close>, \<open>sums\<close> and
  \<open>writeScores\<close> are reached. When both sequence flags are given and the first file
  (or, the first file having a record, the second file) yields no record, the error is that
  very index panic. The run never goes on with an empty sequence in place of the missing
  record. This holds for gonk and for affine.
\<close>

theorem C8_zero_records_fatal:
  "(readFasta fs (gonk_a gf) = Inr [] \<or> readFasta fs (gonk_b gf) = Inr [] \<longrightarrow>
      (\<exists>e. main_const gf fs cc = Inl e)) \<and>
   (gonk_a gf \<noteq> [] \<and> gonk_b gf \<noteq> [] \<and> readFasta fs (gonk_a gf) = Inr [] \<longrightarrow>
      main_const gf fs cc = Inl IndexOutOfRange) \<and>
   (gonk_a gf \<noteq> [] \<and> gonk_b gf \<noteq> [] \<and> (\<exists>r rs. readFasta fs (gonk_a gf) = Inr (r # rs)) \<and>
      readFasta fs (gonk_b gf) = Inr [] \<longrightarrow> main_const gf fs cc = Inl IndexOutOfRange) \<and>
   (fasta_reader fs (affine_a af) = Inr [] \<or> fasta_reader fs (affine_b af) = Inr [] \<longrightarrow>
      (\<exists>e. main_affine af fs cc = Inl e)) \<and>
   (affine_a af \<noteq> [] \<and> affine_b af \<noteq> [] \<and> fasta_reader fs (affine_a af) = Inr [] \<longrightarrow>
      main_affine af fs cc = Inl IndexOutOfRange) \<and>
   (affine_a af \<noteq> [] \<and> affine_b af \<noteq> [] \<and> (\<exists>r rs. fasta_reader fs (affine_a af) = Inr (r # rs)) \<and>
      fasta_reader fs (affine_b af) = Inr [] \<longrightarrow> main_affine af fs cc = Inl IndexOutOfRange)"
  using main_const_fails [of fs gf cc] main_affine_fails [of fs af cc]
    main_const_no_records [where fs = fs and gf = gf and cc = cc]
    main_affine_no_records [where fs = fs and af = af and cc = cc]
  by blast

theorem C8_zero_records_fatal_witness:
  "readFasta [''a.fa'' \<mapsto> [], ''b.fa'' \<mapsto> ''>h'' @ [newline] @ ''ACGT'' @ [newline]] ''a.fa'' = Inr [] \<and>
   main_const \<lparr>gonk_a = ''a.fa'', gonk_b = ''b.fa'', gonk_d = False, gonk_p = 25, gonk_m = False,
       gonk_o = ''SW_PARSE.txt''\<rparr>
     [''a.fa'' \<mapsto> [], ''b.fa'' \<mapsto> ''>h'' @ [newline] @ ''ACGT'' @ [newline]] True
     = Inl IndexOutOfRange \<and>
   fasta_reader [''a.fa'' \<mapsto> [], ''b.fa'' \<mapsto> ''>h'' @ [newline] @ ''ACGT'' @ [newline]] ''a.fa'' = Inr [] \<and>
   main_affine \<lparr>affine_a = ''a.fa'', affine_b = ''b.fa'', affine_d = False, affine_o = 25,
       affine_e = 1, affine_m = False, affine_out = ''SW_PARSE.txt''\<rparr>
     [''a.fa'' \<mapsto> [], ''b.fa'' \<mapsto> ''>h'' @ [newline] @ ''ACGT'' @ [newline]] True
     = Inl IndexOutOfRange"
proof -
  let ?fs = "[''a.fa'' \<mapsto> [], ''b.fa'' \<mapsto> ''>h'' @ [newline] @ ''ACGT'' @ [newline]]"
  let ?gf = "\<lparr>gonk_a = ''a.fa'', gonk_b = ''b.fa'', gonk_d = False, gonk_p = 25, gonk_m = False,
       gonk_o = ''SW_PARSE.txt''\<rparr>"
  let ?af = "\<lparr>affine_a = ''a.fa'', affine_b = ''b.fa'', affine_d = False, affine_o = 25,
       affine_e = 1, affine_m = False, affine_out = ''SW_PARSE.txt''\<rparr>"
  note t = C8_zero_records_fatal [where fs = ?fs and gf = ?gf and af = ?af and cc = True]
  have a: "readFasta ?fs (gonk_a ?gf) = Inr []" "fasta_reader ?fs (affine_a ?af) = Inr []"
    using readFasta_examples(1,3) by simp_all
  have n: "gonk_a ?gf \<noteq> []" "gonk_b ?gf \<noteq> []" "affine_a ?af \<noteq> []" "affine_b ?af \<noteq> []"
    by simp_all
  from t a n have "main_const ?gf ?fs True = Inl IndexOutOfRange"
    "main_affine ?af ?fs True = Inl IndexOutOfRange"
    by blast+
  with readFasta_examples(1,3) show ?thesis by blast
qed

subsection \<open>Symbols outside the alphabet\<close>

text \<open>
  C9. For every symbol that the symbol-to-index map lacks (anything but A, C, G, T, N in
  the constant variant, anything but A, C, G, T in the affine variant) the lookup gives
  index 0, so the symbol scores exactly as \<open>A\<close> does, on either side: \<open>+5\<close> against
  \<open>A\<close> and \<open>-4\<close> against \<open>C\<close>, \<open>G\<close>, \<open>T\<close>. Neither builder raises an error:
  run as \<open>main\<close> runs them, on any two byte strings, both return, they return what
  they return on the sequences in which every such symbol is replaced by \<open>A\<close>, and in
  the matrix that each returns every inner cell that the diagonal flag does not exclude
  obeys the builder's recurrence with the substitution score of the two symbols after that
  replacement.
\<close>

theorem C9_unknown_symbol_as_A:
  "(\<forall>c. c \<notin> set ''ACGTN'' \<longrightarrow> lookup0 baseInt_const (of_char c) = 0 \<and>
      as_A_const c = CHR ''A'' \<and>
      (\<forall>d. score_const c d = score_const CHR ''A'' d \<and> score_const d c = score_const d CHR ''A'') \<and>
      score_const c CHR ''A'' = 5 \<and> score_const c CHR ''C'' = - 4 \<and>
      score_const c CHR ''G'' = - 4 \<and> score_const c CHR ''T'' = - 4) \<and>
   (\<forall>c. c \<notin> set ''ACGT'' \<longrightarrow> lookup0 baseInt_affine (of_char c) = 0 \<and>
      as_A_affine c = CHR ''A'' \<and>
      (\<forall>d. score_affine c d = score_affine CHR ''A'' d \<and> score_affine d c = score_affine d CHR ''A'') \<and>
      score_affine c CHR ''A'' = 5 \<and> score_affine c CHR ''C'' = - 4 \<and>
      score_affine c CHR ''G'' = - 4 \<and> score_affine c CHR ''T'' = - 4) \<and>
   (\<exists>R. populate_const diag penalty (makeMatrix (length seqA) (length seqB)) seqA seqB = Inr R \<and>
      populate_const diag penalty (makeMatrix (length seqA) (length seqB))
        (map as_A_const seqA) (map as_A_const seqB) = Inr R \<and>
      (\<forall>i j. 1 \<le> i \<and> i \<le> length seqA \<and> 1 \<le> j \<and> j \<le> length seqB \<and> \<not> (i = j \<and> diag) \<longrightarrow>
        R ! i ! j =
          smax 0 (smax (R ! (i - 1) ! (j - 1) +
                        score_const (as_A_const (seqA ! (i - 1))) (as_A_const (seqB ! (j - 1))))
                 (smax (R ! (i - 1) ! j - penalty) (R ! i ! (j - 1) - penalty))))) \<and>
   (\<exists>M Ga Gb.
      populate_affine diag gopen ext (makeMatrix (length seqA) (length seqB))
        (makeMatrix (length seqA) (length seqB)) (makeMatrix (length seqA) (length seqB)) seqA seqB
        = Inr (M, Ga, Gb) \<and>
      populate_affine diag gopen ext (makeMatrix (length seqA) (length seqB))
        (makeMatrix (length seqA) (length seqB)) (makeMatrix (length seqA) (length seqB))
        (map as_A_affine seqA) (map as_A_affine seqB) = Inr (M, Ga, Gb) \<and>
      (\<forall>i j. 1 \<le> i \<and> i \<le> length seqA \<and> 1 \<le> j \<and> j \<le> length seqB \<and> \<not> (i = j \<and> diag) \<longrightarrow>
        M ! i ! j =
          smax (smax 0
                 (smax (M ! (i - 1) ! (j - 1) +
                        score_affine (as_A_affine (seqA ! (i - 1))) (as_A_affine (seqB ! (j - 1))))
                  (smax (Ga ! (i - 1) ! (j - 1) +
                         score_affine (as_A_affine (seqA ! (i - 1))) (as_A_affine (seqB ! (j - 1))))
                        (Gb ! (i - 1) ! (j - 1) +
                         score_affine (as_A_affine (seqA ! (i - 1))) (as_A_affine (seqB ! (j - 1)))))))
               (smax (Ga ! i ! j) (Gb ! i ! j))))"
proof (intro conjI allI impI)
  show "\<exists>R. populate_const diag penalty (makeMatrix (length seqA) (length seqB)) seqA seqB = Inr R \<and>
      populate_const diag penalty (makeMatrix (length seqA) (length seqB))
        (map as_A_const seqA) (map as_A_const seqB) = Inr R \<and>
      (\<forall>i j. 1 \<le> i \<and> i \<le> length seqA \<and> 1 \<le> j \<and> j \<le> length seqB \<and> \<not> (i = j \<and> diag) \<longrightarrow>
        R ! i ! j =
          smax 0 (smax (R ! (i - 1) ! (j - 1) +
                        score_const (as_A_const (seqA ! (i - 1))) (as_A_const (seqB ! (j - 1))))
                 (smax (R ! (i - 1) ! j - penalty) (R ! i ! (j - 1) - penalty))))"
    by (rule populate_const_as_A_recurrence)
  show "\<exists>M Ga Gb.
      populate_affine diag gopen ext (makeMatrix (length seqA) (length seqB))
        (makeMatrix (length seqA) (length seqB)) (makeMatrix (length seqA) (length seqB)) seqA seqB
        = Inr (M, Ga, Gb) \<and>
      populate_affine diag gopen ext (makeMatrix (length seqA) (length seqB))
        (makeMatrix (length seqA) (length seqB)) (makeMatrix (length seqA) (length seqB))
        (map as_A_affine seqA) (map as_A_affine seqB) = Inr (M, Ga, Gb) \<and>
      (\<forall>i j. 1 \<le> i \<and> i \<le> length seqA \<and> 1 \<le> j \<and> j \<le> length seqB \<and> \<not> (i = j \<and> diag) \<longrightarrow>
        M ! i ! j =
          smax (smax 0
                 (smax (M ! (i - 1) ! (j - 1) +
                        score_affine (as_A_affine (seqA ! (i - 1))) (as_A_affine (seqB ! (j - 1))))
                  (smax (Ga ! (i - 1) ! (j - 1) +
                         score_affine (as_A_affine (seqA ! (i - 1))) (as_A_affine (seqB ! (j - 1))))
                        (Gb ! (i - 1) ! (j - 1) +
                         score_affine (as_A_affine (seqA ! (i - 1))) (as_A_affine (seqB ! (j - 1)))))))
               (smax (Ga ! i ! j) (Gb ! i ! j)))"
    by (rule populate_affine_as_A_recurrence)
qed (simp_all add: lookup0_const_unknown lookup0_affine_unknown score_unknown score_A as_A_unknown
    del: set_simps)

theorem C9_unknown_symbol_as_A_witness:
  "lookup0 baseInt_const (of_char CHR ''X'') = 0 \<and>
   score_const CHR ''X'' CHR ''A'' = 5 \<and> score_const CHR ''X'' CHR ''C'' = - 4 \<and>
   lookup0 baseInt_affine (of_char CHR ''N'') = 0 \<and>
   score_affine CHR ''N'' CHR ''A'' = 5 \<and> score_affine CHR ''N'' CHR ''T'' = - 4 \<and>
   populate_const False 1 (makeMatrix 1 3) ''X'' ''ACC'' = Inr [[0, 0, 0, 0], [0, 5, 4, 3]] \<and>
   [[0, 0, 0, 0], [0, 5, 4, 3 :: goint]] ! 1 ! 2 =
     smax 0 (smax ([[0, 0, 0, 0], [0, 5, 4, 3]] ! (1 - 1) ! (2 - 1) +
                   score_const (as_A_const (''X'' ! (1 - 1))) (as_A_const (''ACC'' ! (2 - 1))))
            (smax ([[0, 0, 0, 0], [0, 5, 4, 3]] ! (1 - 1) ! 2 - 1)
                  ([[0, 0, 0, 0], [0, 5, 4, 3]] ! 1 ! (2 - 1) - 1))) \<and>
   score_const (as_A_const (''X'' ! (1 - 1))) (as_A_const (''ACC'' ! (2 - 1))) = - 4 \<and>
   populate_affine False 1 0 (makeMatrix 1 3) (makeMatrix 1 3) (makeMatrix 1 3) ''N'' ''ACC'' =
     Inr ([[0, 0, 0, 0], [0, 5, 4, 4]], [[0, 0, 0, 0], [0, 0, 4, 4]], [[0, 0, 0, 0], [0, 0, 0, 0]]) \<and>
   [[0, 0, 0, 0], [0, 5, 4, 4 :: goint]] ! 1 ! 2 =
     smax (smax 0
            (smax ([[0, 0, 0, 0], [0, 5, 4, 4]] ! (1 - 1) ! (2 - 1) +
                   score_affine (as_A_affine (''N'' ! (1 - 1))) (as_A_affine (''ACC'' ! (2 - 1))))
             (smax ([[0, 0, 0, 0], [0, 0, 4, 4]] ! (1 - 1) ! (2 - 1) +
                    score_affine (as_A_affine (''N'' ! (1 - 1))) (as_A_affine (''ACC'' ! (2 - 1))))
                   ([[0, 0, 0, 0], [0, 0, 0, 0]] ! (1 - 1) ! (2 - 1) +
                    score_affine (as_A_affine (''N'' ! (1 - 1))) (as_A_affine (''ACC'' ! (2 - 1)))))))
          (smax ([[0, 0, 0, 0], [0, 0, 4, 4]] ! 1 ! 2) ([[0, 0, 0, 0], [0, 0, 0, 0]] ! 1 ! 2)) \<and>
   score_affine (as_A_affine (''N'' ! (1 - 1))) (as_A_affine (''ACC'' ! (2 - 1))) = - 4"
proof -
  note t = C9_unknown_symbol_as_A [where diag = False and penalty = 1 and seqA = "''X''"
      and seqB = "''ACC''" and gopen = 1 and ext = 0]
  note u = C9_unknown_symbol_as_A [where diag = False and penalty = 1 and seqA = "''N''"
      and seqB = "''ACC''" and gopen = 1 and ext = 0]
  have x: "CHR ''X'' \<notin> set ''ACGTN''" and n: "CHR ''N'' \<notin> set ''ACGT''" by simp_all
  from t x have 1: "lookup0 baseInt_const (of_char CHR ''X'') = 0"
      "score_const CHR ''X'' CHR ''A'' = 5" "score_const CHR ''X'' CHR ''C'' = - 4"
      "as_A_const CHR ''X'' = CHR ''A''"
    by blast+
  from t n have 2: "lookup0 baseInt_affine (of_char CHR ''N'') = 0"
      "score_affine CHR ''N'' CHR ''A'' = 5" "score_affine CHR ''N'' CHR ''T'' = - 4"
      "as_A_affine CHR ''N'' = CHR ''A''"
    by blast+
  have len: "length ''X'' = 1" "length ''N'' = 1" "length ''ACC'' = 3" by simp_all
  have m: "map as_A_const ''X'' = ''A''" "map as_A_const ''ACC'' = ''ACC''"
    "map as_A_affine ''N'' = ''A''" "map as_A_affine ''ACC'' = ''ACC''"
    by (simp_all add: as_A_const_def as_A_affine_def)
  have ij: "1 \<le> (1::nat) \<and> (1::nat) \<le> length ''X'' \<and> 1 \<le> (2::nat) \<and> (2::nat) \<le> length ''ACC'' \<and>
      \<not> ((1::nat) = 2 \<and> False)"
    "1 \<le> (1::nat) \<and> (1::nat) \<le> length ''N'' \<and> 1 \<le> (2::nat) \<and> (2::nat) \<le> length ''ACC'' \<and>
      \<not> ((1::nat) = 2 \<and> False)"
    by simp_all
  from t obtain R where
    R: "populate_const False 1 (makeMatrix (length ''X'') (length ''ACC'')) ''X'' ''ACC'' = Inr R"
      "populate_const False 1 (makeMatrix (length ''X'') (length ''ACC''))
         (map as_A_const ''X'') (map as_A_const ''ACC'') = Inr R"
    and Rrec: "\<forall>i j. 1 \<le> i \<and> i \<le> length ''X'' \<and> 1 \<le> j \<and> j \<le> length ''ACC'' \<and> \<not> (i = j \<and> False) \<longrightarrow>
        R ! i ! j =
          smax 0 (smax (R ! (i - 1) ! (j - 1) +
                        score_const (as_A_const (''X'' ! (i - 1))) (as_A_const (''ACC'' ! (j - 1))))
                 (smax (R ! (i - 1) ! j - 1) (R ! i ! (j - 1) - 1)))"
    by blast
  from R have R': "populate_const False 1 (makeMatrix 1 3) ''X'' ''ACC'' = Inr R"
    "populate_const False 1 (makeMatrix 1 3) ''A'' ''ACC'' = Inr R"
    by (simp_all only: len m)
  with populate_const_A_ACC have Req: "R = [[0, 0, 0, 0], [0, 5, 4, 3]]" by simp
  from Rrec ij(1) have 3: "R ! 1 ! 2 =
          smax 0 (smax (R ! (1 - 1) ! (2 - 1) +
                        score_const (as_A_const (''X'' ! (1 - 1))) (as_A_const (''ACC'' ! (2 - 1))))
                 (smax (R ! (1 - 1) ! 2 - 1) (R ! 1 ! (2 - 1) - 1)))"
    by blast
  from u obtain M Ga Gb where
    p: "populate_affine False 1 0 (makeMatrix (length ''N'') (length ''ACC''))
        (makeMatrix (length ''N'') (length ''ACC'')) (makeMatrix (length ''N'') (length ''ACC''))
        ''N'' ''ACC'' = Inr (M, Ga, Gb)"
      "populate_affine False 1 0 (makeMatrix (length ''N'') (length ''ACC''))
        (makeMatrix (length ''N'') (length ''ACC'')) (makeMatrix (length ''N'') (length ''ACC''))
        (map as_A_affine ''N'') (map as_A_affine ''ACC'') = Inr (M, Ga, Gb)"
    and Mrec: "\<forall>i j. 1 \<le> i \<and> i \<le> length ''N'' \<and> 1 \<le> j \<and> j \<le> length ''ACC'' \<and> \<not> (i = j \<and> False) \<longrightarrow>
        M ! i ! j =
          smax (smax 0
                 (smax (M ! (i - 1) ! (j - 1) +
                        score_affine (as_A_affine (''N'' ! (i - 1))) (as_A_affine (''ACC'' ! (j - 1))))
                  (smax (Ga ! (i - 1) ! (j - 1) +
                         score_affine (as_A_affine (''N'' ! (i - 1))) (as_A_affine (''ACC'' ! (j - 1))))
                        (Gb ! (i - 1) ! (j - 1) +
                         score_affine (as_A_affine (''N'' ! (i - 1))) (as_A_affine (''ACC'' ! (j - 1)))))))
               (smax (Ga ! i ! j) (Gb ! i ! j))"
    by blast
  from p have p': "populate_affine False 1 0 (makeMatrix 1 3) (makeMatrix 1 3) (makeMatrix 1 3)
        ''N'' ''ACC'' = Inr (M, Ga, Gb)"
      "populate_affine False 1 0 (makeMatrix 1 3) (makeMatrix 1 3) (makeMatrix 1 3)
        ''A'' ''ACC'' = Inr (M, Ga, Gb)"
    by (simp_all only: len m)
  with populate_affine_A_ACC
  have Meq: "M = [[0, 0, 0, 0], [0, 5, 4, 4]]" "Ga = [[0, 0, 0, 0], [0, 0, 4, 4]]"
    "Gb = [[0, 0, 0, 0], [0, 0, 0, 0]]"
    by simp_all
  from Mrec ij(2) have 4: "M ! 1 ! 2 =
          smax (smax 0
                 (smax (M ! (1 - 1) ! (2 - 1) +
                        score_affine (as_A_affine (''N'' ! (1 - 1))) (as_A_affine (''ACC'' ! (2 - 1))))
                  (smax (Ga ! (1 - 1) ! (2 - 1) +
                         score_affine (as_A_affine (''N'' ! (1 - 1))) (as_A_affine (''ACC'' ! (2 - 1))))
                        (Gb ! (1 - 1) ! (2 - 1) +
                         score_affine (as_A_affine (''N'' ! (1 - 1))) (as_A_affine (''ACC'' ! (2 - 1)))))))
               (smax (Ga ! 1 ! 2) (Gb ! 1 ! 2))"
    by blast
  have 5: "score_const (as_A_const (''X'' ! (1 - 1))) (as_A_const (''ACC'' ! (2 - 1))) = - 4"
    "score_affine (as_A_affine (''N'' ! (1 - 1))) (as_A_affine (''ACC'' ! (2 - 1))) = - 4"
    by (simp_all add: 1(4) 2(4) as_A_const_def as_A_affine_def score_A)
  note c = 1(1,2,3) 2(1,2,3) R'(1) [unfolded Req] 3 [unfolded Req] 5(1)
    p'(1) [unfolded Meq] 4 [unfolded Meq] 5(2)
  show ?thesis by (intro conjI c)
qed

subsection \<open>A last line without newline\<close>

text \<open>
  C10, as stated, fails in two places. The file \<^verbatim>\<open>ACGT\<close> (one line, no newline, no
  header) has a last line without newline; gonk's \<open>readFasta\<close> discards it, but the same
  file with a newline added yields no sequence: the line is appended to the last of no
  records and the run panics. And affine's \<open>fasta_reader\<close> does not keep a last line of
  65536 bytes or more: the scanner stops at a line that does not fit its buffer, so the
  record \<^verbatim>\<open>>h\<close> followed by 65536 times \<^verbatim>\<open>A\<close> is read with an empty sequence.
\<close>

theorem C10_final_line_counterexample:
  "newline \<notin> set ''ACGT'' \<and>
   readFasta [''x.fa'' \<mapsto> ''ACGT''] ''x.fa'' = Inr [] \<and>
   readFasta [''x.fa'' \<mapsto> ''ACGT'' @ [newline]] ''x.fa'' = Inl IndexOutOfRange \<and>
   newline \<notin> set (replicate 65536 CHR ''A'') \<and>
   fasta_reader [''x.fa'' \<mapsto> ''>h'' @ [newline] @ replicate 65536 CHR ''A''] ''x.fa'' =
     Inr [\<lparr>header = ''h'', seq = []\<rparr>]"
proof -
  have "readFasta_loop ''ACGT'' [] = Inr []"
    by (intro readFasta_loop_end) (simp add: newline_def)
  moreover have "readFasta_loop (''ACGT'' @ [newline]) [] = Inl IndexOutOfRange"
  proof -
    have n: "newline \<notin> set ''ACGT''" by (simp add: newline_def)
    have "readFasta_loop (''ACGT'' @ [newline]) [] =
        ebind (add_line (takeWhile (\<lambda>c. c \<noteq> newline) (''ACGT'' @ [newline])) [])
          (readFasta_loop (drop (length (takeWhile (\<lambda>c. c \<noteq> newline) (''ACGT'' @ [newline])) + 1)
             (''ACGT'' @ [newline])))"
      by (rule readFasta_loop_step) simp
    also have "add_line (takeWhile (\<lambda>c. c \<noteq> newline) (''ACGT'' @ [newline])) [] = Inl IndexOutOfRange"
      unfolding takeWhile_no_newline(2) [OF n] by (simp add: add_line_def)
    finally show ?thesis by (simp add: ebind_def)
  qed
  moreover have "newline \<notin> set ''ACGT''" "newline \<notin> set (replicate 65536 CHR ''A'')"
    by (simp_all add: newline_def)
  ultimately show ?thesis
    using long_line_example by (simp add: readFasta_def fasta_reader_def)
qed

text \<open>
  C10, amended. For every input file whose last line \<open>l\<close> is not ended by a newline (the
  file is \<open>pre @ l\<close>, with \<open>pre\<close> empty or ending in a newline and \<open>l\<close> non-empty and
  without newline): gonk's \<open>readFasta\<close> returns what it returns on \<open>pre\<close> alone, so no
  byte of \<open>l\<close> reaches a header or a sequence; when \<open>l\<close> is a sequence line (it does not
  start with \<^verbatim>\<open>></\<close>) and \<open>pre\<close> alone parses to at least one record, the same file with a
  newline added parses to those records with \<open>l\<close> appended to the sequence of the last
  one. affine's \<open>fasta_reader\<close> returns on the file what it returns on the file with the
  newline added; when moreover no line of the file reaches the scanner's token size, \<open>l\<close>
  (less one carriage return at its end) is a non-empty sequence line and \<open>pre\<close> alone
  parses to at least one record, that is those records with the line appended to the
  sequence of the last one.
\<close>

theorem C10_final_line:
  assumes "terminated pre" "newline \<notin> set l" "l \<noteq> []"
  shows "readFasta (fs(f \<mapsto> pre @ l)) f = readFasta (fs(f \<mapsto> pre)) f \<and>
         (hd l \<noteq> CHR ''>'' \<and> readFasta (fs(f \<mapsto> pre)) f = Inr recs \<and> recs \<noteq> [] \<longrightarrow>
            readFasta (fs(f \<mapsto> pre @ l @ [newline])) f =
              Inr (butlast recs @ [add_seq (last recs) l])) \<and>
         fasta_reader (fs(f \<mapsto> pre @ l)) f = fasta_reader (fs(f \<mapsto> pre @ l @ [newline])) f \<and>
         (fits (pre @ l) \<and> dropCR l \<noteq> [] \<and> hd l \<noteq> CHR ''>'' \<and>
          fasta_reader (fs(f \<mapsto> pre)) f = Inr recs' \<and> recs' \<noteq> [] \<longrightarrow>
            fasta_reader (fs(f \<mapsto> pre @ l)) f =
              Inr (butlast recs' @ [add_seq (last recs') (dropCR l)]))"
proof (intro conjI impI)
  show "readFasta (fs(f \<mapsto> pre @ l)) f = readFasta (fs(f \<mapsto> pre)) f"
    using assms(1,2) by (simp add: readFasta_def readFasta_loop_drops_last)
next
  assume a: "hd l \<noteq> CHR ''>'' \<and> readFasta (fs(f \<mapsto> pre)) f = Inr recs \<and> recs \<noteq> []"
  then have "readFasta_loop pre [] = Inr recs" by (simp add: readFasta_def)
  then have "readFasta_loop (pre @ l @ [newline]) [] = add_line l recs"
    using assms(1,2) by (simp add: readFasta_loop_last_line ebind_def)
  with a assms(3) show "readFasta (fs(f \<mapsto> pre @ l @ [newline])) f =
      Inr (butlast recs @ [add_seq (last recs) l])"
    by (simp add: readFasta_def add_line_sequence)
next
  have "fasta_reader_loop ((pre @ l) @ [newline]) [] = fasta_reader_loop (pre @ l) []"
    by (rule fasta_reader_loop_newline)
  then show "fasta_reader (fs(f \<mapsto> pre @ l)) f = fasta_reader (fs(f \<mapsto> pre @ l @ [newline])) f"
    by (simp add: fasta_reader_def)
next
  assume a: "fits (pre @ l) \<and> dropCR l \<noteq> [] \<and> hd l \<noteq> CHR ''>'' \<and>
      fasta_reader (fs(f \<mapsto> pre)) f = Inr recs' \<and> recs' \<noteq> []"
  then have "fasta_reader_loop pre [] = Inr recs'" by (simp add: fasta_reader_def)
  then have "fasta_reader_loop (pre @ l) [] = add_line (dropCR l) recs'"
    using assms(1,2) a by (simp add: fasta_reader_loop_keeps_last ebind_def)
  moreover from a have "hd (dropCR l) \<noteq> CHR ''>''" by (simp add: hd_dropCR)
  ultimately show "fasta_reader (fs(f \<mapsto> pre @ l)) f =
      Inr (butlast recs' @ [add_seq (last recs') (dropCR l)])"
    using a by (simp add: fasta_reader_def add_line_sequence)
qed

theorem C10_final_line_witness:
  "readFasta [''x.fa'' \<mapsto> (''>h'' @ [newline] @ ''AC'' @ [newline]) @ ''GT''] ''x.fa'' =
     Inr [\<lparr>header = ''h'', seq = ''AC''\<rparr>] \<and>
   readFasta [''x.fa'' \<mapsto> (''>h'' @ [newline] @ ''AC'' @ [newline]) @ ''GT'' @ [newline]] ''x.fa'' =
     Inr [\<lparr>header = ''h'', seq = ''ACGT''\<rparr>] \<and>
   fasta_reader [''x.fa'' \<mapsto> (''>h'' @ [newline] @ ''AC'' @ [newline]) @ ''GT''] ''x.fa'' =
     Inr [\<lparr>header = ''h'', seq = ''ACGT''\<rparr>] \<and>
   fasta_reader [''x.fa'' \<mapsto> (''>h'' @ [newline] @ ''AC'' @ [newline]) @ ''GT'' @ [newline]] ''x.fa'' =
     Inr [\<lparr>header = ''h'', seq = ''ACGT''\<rparr>]"
proof -
  let ?pre = "''>h'' @ [newline] @ ''AC'' @ [newline]"
  let ?r = "[\<lparr>header = ''h'', seq = ''AC''\<rparr>]"
  have h: "terminated ?pre" "newline \<notin> set ''GT''" "''GT'' \<noteq> []"
    by (simp_all add: terminated_def newline_def)
  note t = C10_final_line [OF h, where fs = Map.empty and f = "''x.fa''" and recs = ?r and recs' = ?r]
  have r: "readFasta [''x.fa'' \<mapsto> ?pre] ''x.fa'' = Inr ?r" "fasta_reader [''x.fa'' \<mapsto> ?pre] ''x.fa'' = Inr ?r"
    using reader_examples by (simp_all add: readFasta_def fasta_reader_def)
  have f: "fits (?pre @ ''GT'')" by (rule fits_short) (simp add: maxScanTokenSize_def)
  have d: "dropCR ''GT'' = ''GT''" "hd ''GT'' \<noteq> CHR ''>''" "?r \<noteq> []" "dropCR ''GT'' \<noteq> []"
    by (simp_all add: dropCR_def)
  have e: "butlast ?r @ [add_seq (last ?r) ''GT''] = [\<lparr>header = ''h'', seq = ''ACGT''\<rparr>]"
    by (simp add: add_seq_def)
  have w1: "readFasta [''x.fa'' \<mapsto> ?pre @ ''GT''] ''x.fa'' = Inr ?r"
    using t [THEN conjunct1] r(1) by (simp only:)
  have "readFasta [''x.fa'' \<mapsto> ?pre @ ''GT'' @ [newline]] ''x.fa'' =
      Inr (butlast ?r @ [add_seq (last ?r) ''GT''])"
    using t [THEN conjunct2, THEN conjunct1] d(2,3) r(1) by blast
  then have w2: "readFasta [''x.fa'' \<mapsto> ?pre @ ''GT'' @ [newline]] ''x.fa'' =
      Inr [\<lparr>header = ''h'', seq = ''ACGT''\<rparr>]"
    by (simp only: e)
  have "fasta_reader [''x.fa'' \<mapsto> ?pre @ ''GT''] ''x.fa'' =
      Inr (butlast ?r @ [add_seq (last ?r) (dropCR ''GT'')])"
    using t [THEN conjunct2, THEN conjunct2, THEN conjunct2] f d(2,3,4) r(2) by blast
  then have w3: "fasta_reader [''x.fa'' \<mapsto> ?pre @ ''GT''] ''x.fa'' =
      Inr [\<lparr>header = ''h'', seq = ''ACGT''\<rparr>]"
    by (simp only: d(1) e)
  have w4: "fasta_reader [''x.fa'' \<mapsto> ?pre @ ''GT'' @ [newline]] ''x.fa'' =
      Inr [\<lparr>header = ''h'', seq = ''ACGT''\<rparr>]"
    using t [THEN conjunct2, THEN conjunct2, THEN conjunct1] w3 by (simp only:)
  from w1 w2 w3 w4 show ?thesis by (intro conjI)
qed

end
